theory Spec2Isabelle
  imports Complex_Main "HOL-Library.AList" "HOL-Library.Log_Nat"
begin

section \<open>The cache (class \<open>Cache<T>\<close>)\<close>

text \<open>
  JavaScript numbers that hold times, durations and sizes are modelled as \<open>int\<close>.
  A payload of type \<open>T | null\<close> is an \<open>'a option\<close>, with \<open>None\<close> for \<open>null\<close>;
  \<open>get\<close> answers \<open>null\<close> for a miss, so a miss is \<open>None\<close> too.
\<close>

datatype Storage = Memory | LocalStorage

record CacheOptions =
  ttl :: int
  maxEntries :: int
  storage :: Storage

record 'a CacheEntry =
  data :: "'a option"
  timestamp :: int
  expiresAt :: int
  key :: string

text \<open>
  \<open>memoryCache\<close> is a JavaScript \<open>Map\<close>: an association list in insertion order.
  \<open>Map.set\<close> on a key already present replaces the value in place, on a new key it
  appends (\<open>AList.update\<close>); \<open>Map.delete\<close> is \<open>AList.delete\<close>.
\<close>

record 'a Cache =
  memoryCache :: "(string \<times> 'a CacheEntry) list"
  options :: CacheOptions

text \<open>
  \<open>localStorage\<close> is global and shared by every cache instance. An item is the JSON text
  of an entry (\<open>JSON.parse (JSON.stringify e) = e\<close> is assumed for the payloads stored),
  or a text that \<open>getFromLocalStorage\<close> cannot turn into an entry.
\<close>

datatype 'a Item = Json "'a CacheEntry" | Unparseable

type_synonym 'a Store = "(string \<times> 'a Item) list"

text \<open>The constructor's optional fields; \<open>x || d\<close> takes \<open>d\<close> when \<open>x\<close> is undefined or 0.\<close>

record CacheOptionsArg =
  ttlArg :: "int option"
  maxEntriesArg :: "int option"
  storageArg :: "Storage option"

definition orElse :: "int option \<Rightarrow> int \<Rightarrow> int" where
  "orElse x d = (case x of None \<Rightarrow> d | Some n \<Rightarrow> if n = 0 then d else n)"

definition newCache :: "CacheOptionsArg \<Rightarrow> 'a Cache" where
  "newCache arg =
     \<lparr>memoryCache = [],
      options = \<lparr>ttl = orElse (ttlArg arg) (30 * 60 * 1000),
                 maxEntries = orElse (maxEntriesArg arg) 100,
                 storage = (case storageArg arg of None \<Rightarrow> Memory | Some s \<Rightarrow> s)\<rparr>\<rparr>"

definition startsWith :: "string \<Rightarrow> string \<Rightarrow> bool" where
  "startsWith s p = (take (length p) s = p)"

definition cacheKey :: "string \<Rightarrow> string" where
  "cacheKey k = ''cache_'' @ k"

text \<open>\<open>setInMemory\<close>: at or over \<open>maxEntries\<close> the first key of the map is deleted, then the entry is set.\<close>

definition setInMemory :: "'a Cache \<Rightarrow> string \<Rightarrow> 'a CacheEntry \<Rightarrow> 'a Cache" where
  "setInMemory c k entry =
     (let m = memoryCache c;
          m' = (if maxEntries (options c) \<le> int (length m)
                then (case m of [] \<Rightarrow> m | (oldestKey, _) # _ \<Rightarrow> AList.delete oldestKey m)
                else m)
      in c\<lparr>memoryCache := AList.update k entry m'\<rparr>)"

text \<open>
  \<open>setInLocalStorage\<close>: \<open>writeFails\<close> says whether \<open>localStorage.setItem\<close> throws on this
  call (quota exceeded, storage disabled); the exception is caught and the entry goes to memory.
\<close>

definition setInLocalStorage ::
  "'a Cache \<Rightarrow> 'a Store \<Rightarrow> bool \<Rightarrow> string \<Rightarrow> 'a CacheEntry \<Rightarrow> 'a Cache \<times> 'a Store" where
  "setInLocalStorage c ls writeFails k entry =
     (if writeFails then (setInMemory c k entry, ls)
      else (c, AList.update (cacheKey k) (Json entry) ls))"

definition getFromLocalStorage :: "'a Store \<Rightarrow> string \<Rightarrow> 'a CacheEntry option" where
  "getFromLocalStorage ls k =
     (case map_of ls (cacheKey k) of
        None \<Rightarrow> None
      | Some Unparseable \<Rightarrow> None
      | Some (Json e) \<Rightarrow> Some e)"

text \<open>\<open>set\<close>: \<open>now1\<close> and \<open>now2\<close> are the two readings of \<open>Date.now()\<close>.\<close>

definition cache_set ::
  "'a Cache \<Rightarrow> 'a Store \<Rightarrow> string \<Rightarrow> 'a option \<Rightarrow> int option \<Rightarrow> int \<Rightarrow> int \<Rightarrow> bool
     \<Rightarrow> 'a Cache \<times> 'a Store" where
  "cache_set c ls k d customTtl now1 now2 writeFails =
     (let t = orElse customTtl (ttl (options c));
          entry = \<lparr>data = d, timestamp = now1, expiresAt = now2 + t, key = k\<rparr>
      in if storage (options c) = LocalStorage
         then setInLocalStorage c ls writeFails k entry
         else (setInMemory c k entry, ls))"

definition cache_delete :: "'a Cache \<Rightarrow> 'a Store \<Rightarrow> string \<Rightarrow> 'a Cache \<times> 'a Store" where
  "cache_delete c ls k =
     (if storage (options c) = LocalStorage
      then (c, AList.delete (cacheKey k) ls)
      else (c\<lparr>memoryCache := AList.delete k (memoryCache c)\<rparr>, ls))"

text \<open>\<open>get\<close> returns the payload or \<open>null\<close>, and the state it leaves.\<close>

definition cache_get ::
  "'a Cache \<Rightarrow> 'a Store \<Rightarrow> string \<Rightarrow> int \<Rightarrow> 'a option \<times> 'a Cache \<times> 'a Store" where
  "cache_get c ls k now =
     (let entry = (if storage (options c) = LocalStorage
                   then getFromLocalStorage ls k
                   else map_of (memoryCache c) k)
      in case entry of
           None \<Rightarrow> (None, c, ls)
         | Some e \<Rightarrow>
             if now > expiresAt e then (None, cache_delete c ls k)
             else (data e, c, ls))"

definition cache_clear :: "'a Cache \<Rightarrow> 'a Store \<Rightarrow> 'a Cache \<times> 'a Store" where
  "cache_clear c ls =
     (if storage (options c) = LocalStorage
      then (c, filter (\<lambda>(k, _). \<not> startsWith k ''cache_'') ls)
      else (c\<lparr>memoryCache := []\<rparr>, ls))"

definition getStats :: "'a Cache \<Rightarrow> 'a Store \<Rightarrow> nat" where
  "getStats c ls =
     (if storage (options c) = LocalStorage
      then length (filter (\<lambda>k. startsWith k ''cache_'') (map fst ls))
      else length (memoryCache c))"

text \<open>
  \<open>getOrSet\<close>: the generator is the caller's closure. It acts on the state outside the
  cache, the \<open>world\<close>: a call takes the world it finds and yields the world it leaves
  together with its result, a payload when its promise resolves (\<open>Inr\<close>) or the error
  when it rejects (\<open>Inl\<close>). The awaits are run without interleaving. The result of
  \<open>getOrSet\<close> carries the world after the call, in which every invocation of the
  generator has left its trace, and the number of invocations made.
\<close>

record ('e, 'a, 'w) GetOrSetResult =
  outcome :: "'e + 'a option"
  cacheAfter :: "'a Cache"
  storeAfter :: "'a Store"
  worldAfter :: 'w
  generatorCalls :: nat

definition getOrSet ::
  "'a Cache \<Rightarrow> 'a Store \<Rightarrow> string \<Rightarrow> ('w \<Rightarrow> ('e + 'a option) \<times> 'w) \<Rightarrow> 'w \<Rightarrow> int option
     \<Rightarrow> int \<Rightarrow> int \<Rightarrow> int \<Rightarrow> bool \<Rightarrow> ('e, 'a, 'w) GetOrSetResult" where
  "getOrSet c ls k generator world customTtl now now1 now2 writeFails =
     (case cache_get c ls k now of
        (Some cached, c1, ls1) \<Rightarrow>
          \<lparr>outcome = Inr (Some cached), cacheAfter = c1, storeAfter = ls1,
           worldAfter = world, generatorCalls = 0\<rparr>
      | (None, c1, ls1) \<Rightarrow>
          (case generator world of
             (Inl err, world1) \<Rightarrow>
               \<lparr>outcome = Inl err, cacheAfter = c1, storeAfter = ls1,
                worldAfter = world1, generatorCalls = 1\<rparr>
           | (Inr d, world1) \<Rightarrow>
               (let (c2, ls2) = cache_set c1 ls1 k d customTtl now1 now2 writeFails
                in \<lparr>outcome = Inr d, cacheAfter = c2, storeAfter = ls2,
                    worldAfter = world1, generatorCalls = 1\<rparr>)))"

text \<open>The sweep \<open>cleanup\<close>, which the timer started by the constructor runs every five minutes.\<close>

definition cleanup :: "'a Cache \<Rightarrow> 'a Store \<Rightarrow> int \<Rightarrow> 'a Cache \<times> 'a Store" where
  "cleanup c ls now =
     (if storage (options c) = LocalStorage
      then (c, filter (\<lambda>(k, item). \<not> (startsWith k ''cache_'' \<and>
                         (case item of Unparseable \<Rightarrow> True | Json e \<Rightarrow> expiresAt e < now))) ls)
      else (c\<lparr>memoryCache := filter (\<lambda>(k, e). \<not> expiresAt e < now) (memoryCache c)\<rparr>, ls))"

text \<open>The module's instances, as constructed.\<close>

definition quizCache :: "'a Cache" where
  "quizCache = newCache \<lparr>ttlArg = Some (60 * 60 * 1000), maxEntriesArg = None, storageArg = Some LocalStorage\<rparr>"

definition pdfCache :: "'a Cache" where
  "pdfCache = newCache \<lparr>ttlArg = Some (24 * 60 * 60 * 1000), maxEntriesArg = None, storageArg = Some LocalStorage\<rparr>"

definition apiCache :: "'a Cache" where
  "apiCache = newCache \<lparr>ttlArg = Some (15 * 60 * 1000), maxEntriesArg = None, storageArg = Some Memory\<rparr>"

text \<open>
  The entry that \<open>get\<close> reads for a key: from \<open>localStorage\<close> on the persistent backend,
  from \<open>memoryCache\<close> otherwise.
\<close>

definition backendLookup :: "'a Cache \<Rightarrow> 'a Store \<Rightarrow> string \<Rightarrow> 'a CacheEntry option" where
  "backendLookup c ls k =
     (if storage (options c) = LocalStorage then getFromLocalStorage ls k
      else map_of (memoryCache c) k)"

text \<open>\<open>set(k, d, customTtl)\<close> followed by \<open>get(k)\<close> at time \<open>now\<close>.\<close>

definition setThenGet ::
  "'a Cache \<Rightarrow> 'a Store \<Rightarrow> string \<Rightarrow> 'a option \<Rightarrow> int option \<Rightarrow> int \<Rightarrow> int \<Rightarrow> bool \<Rightarrow> int
     \<Rightarrow> 'a option \<times> 'a Cache \<times> 'a Store" where
  "setThenGet c ls k d customTtl now1 now2 writeFails now =
     (case cache_set c ls k d customTtl now1 now2 writeFails of
        (c', ls') \<Rightarrow> cache_get c' ls' k now)"

text \<open>A sequence of \<open>set\<close> calls, each with its arguments, clock readings and write outcome.\<close>

fun setAll ::
  "'a Cache \<Rightarrow> 'a Store \<Rightarrow> (string \<times> 'a option \<times> int option \<times> int \<times> int \<times> bool) list
     \<Rightarrow> 'a Cache \<times> 'a Store" where
  "setAll c ls [] = (c, ls)"
| "setAll c ls ((k, d, customTtl, now1, now2, writeFails) # rest) =
     (case cache_set c ls k d customTtl now1 now2 writeFails of (c', ls') \<Rightarrow> setAll c' ls' rest)"

text \<open>A persisted entry that is still valid at time 1000, used in the examples below.\<close>

definition staleStore :: "nat Store" where
  "staleStore = [(''cache_k'', Json \<lparr>data = Some 1, timestamp = 0, expiresAt = 1000, key = ''k''\<rparr>)]"

text \<open>Small instances used in the examples below.\<close>

definition smallCache :: "nat Cache" where
  "smallCache = newCache \<lparr>ttlArg = None, maxEntriesArg = Some 2, storageArg = Some Memory\<rparr>"

definition smallStoreCache :: "nat Cache" where
  "smallStoreCache = newCache \<lparr>ttlArg = None, maxEntriesArg = Some 1, storageArg = Some LocalStorage\<rparr>"

definition entryA :: "nat CacheEntry" where
  "entryA = \<lparr>data = Some 1, timestamp = 0, expiresAt = 1800000, key = ''a''\<rparr>"

definition entryB :: "nat CacheEntry" where
  "entryB = \<lparr>data = Some 2, timestamp = 1, expiresAt = 1800001, key = ''b''\<rparr>"

definition fullCache :: "nat Cache" where
  "fullCache = smallCache\<lparr>memoryCache := [(''a'', entryA), (''b'', entryB)]\<rparr>"

definition nullCache :: "nat Cache" where
  "nullCache = smallCache\<lparr>memoryCache :=
       [(''n'', \<lparr>data = None, timestamp = 0, expiresAt = 1800000, key = ''n''\<rparr>)]\<rparr>"

definition expiredCache :: "nat Cache" where
  "expiredCache = smallCache\<lparr>memoryCache :=
       [(''x'', \<lparr>data = Some 4, timestamp = 0, expiresAt = 10, key = ''x''\<rparr>)]\<rparr>"

text \<open>
  Two generators; the world they act on is the count of their invocations so far.
\<close>

definition failing :: "nat \<Rightarrow> (string + nat option) \<times> nat" where
  "failing calls = (Inl ''producer failed'', Suc calls)"

definition producing :: "nat \<Rightarrow> (string + nat option) \<times> nat" where
  "producing calls = (Inr (Some 9), Suc calls)"

section \<open>The chunker\<close>

text \<open>
  A JavaScript string is modelled by its code units below 256 (\<open>char\<close> is one byte);
  indices and lengths count code units. JavaScript numbers are IEEE doubles. A double is
  modelled by the rational number it denotes, and in \<open>chunkText\<close> every sum, difference
  and product, and every decimal literal (\<open>0.3\<close>, \<open>0.6\<close>, \<open>0.7\<close>), is rounded to the nearest
  double by \<open>binary64\<close> below. Comparisons, \<open>Math.min\<close> and the truncation of an index
  are exact. The options are taken as the numbers they denote.
\<close>

subsection \<open>Numbers\<close>

text \<open>
  Rounding to nearest, ties to even, with a significand of 53 bits: a positive \<open>x\<close>
  with \<open>2 ^ e \<le> x < 2 ^ (e + 1)\<close> is rounded to a multiple of \<open>2 ^ (e - 52)\<close>, and a
  negative number as its absolute value. This is the rounding of IEEE binary64 wherever
  the result is a normal double. The exponent is not bounded, so there is no overflow to
  \<open>Infinity\<close> and no gradual underflow; \<open>NaN\<close> is not modelled.
\<close>

definition roundHalfEven :: "rat \<Rightarrow> int" where
  "roundHalfEven y =
     (let f = \<lfloor>y\<rfloor>; r = y - of_int f
      in if r < 1 / 2 then f else if 1 / 2 < r then f + 1 else if even f then f else f + 1)"

text \<open>The \<open>e\<close> with \<open>2 ^ e \<le> x < 2 ^ (e + 1)\<close>, for a positive \<open>x\<close>.\<close>

definition binaryExponent :: "rat \<Rightarrow> int" where
  "binaryExponent x =
     (let (a, b) = quotient_of x; e = bitlen a - bitlen b
      in if 2 powi e \<le> x then e else e - 1)"

definition binary64 :: "rat \<Rightarrow> rat" where
  "binary64 x =
     (if x = 0 then 0
      else (let q = 2 powi (binaryExponent \<bar>x\<bar> - 52)
            in sgn x * (of_int (roundHalfEven (\<bar>x\<bar> / q)) * q)))"

record TextChunk =
  chunk_id :: string
  content :: string
  startIndex :: rat
  endIndex :: rat
  wordCount :: nat

record ChunkingOptions =
  maxWords :: "rat option"
  maxChars :: "rat option"
  overlap :: "rat option"
  preserveParagraphs :: "bool option"
  preserveSentences :: "bool option"

text \<open>The destructuring defaults of \<open>chunkText\<close>.\<close>

definition maxWordsOf :: "ChunkingOptions \<Rightarrow> rat" where
  "maxWordsOf opts = (case maxWords opts of None \<Rightarrow> 500 | Some n \<Rightarrow> n)"

definition maxCharsOf :: "ChunkingOptions \<Rightarrow> rat" where
  "maxCharsOf opts = (case maxChars opts of None \<Rightarrow> 3000 | Some n \<Rightarrow> n)"

definition overlapOf :: "ChunkingOptions \<Rightarrow> rat" where
  "overlapOf opts = (case overlap opts of None \<Rightarrow> 50 | Some n \<Rightarrow> n)"

definition preserveParagraphsOf :: "ChunkingOptions \<Rightarrow> bool" where
  "preserveParagraphsOf opts = (case preserveParagraphs opts of None \<Rightarrow> True | Some b \<Rightarrow> b)"

definition preserveSentencesOf :: "ChunkingOptions \<Rightarrow> bool" where
  "preserveSentencesOf opts = (case preserveSentences opts of None \<Rightarrow> True | Some b \<Rightarrow> b)"

subsection \<open>String primitives\<close>

text \<open>The class \<open>\s\<close> (and the characters \<open>trim\<close> strips), below 256: tab, LF, VT, FF, CR, space, NBSP.\<close>

definition isSpace :: "char \<Rightarrow> bool" where
  "isSpace c = (c \<in> set [CHR 0x09, CHR 0x0A, CHR 0x0B, CHR 0x0C, CHR 0x0D, CHR 0x20, CHR 0xA0])"

definition newline :: char where
  "newline = CHR 0x0A"

text \<open>\<open>ToIntegerOrInfinity\<close>: truncation towards zero.\<close>

definition toInteger :: "rat \<Rightarrow> int" where
  "toInteger x = (if 0 \<le> x then \<lfloor>x\<rfloor> else \<lceil>x\<rceil>)"

text \<open>\<open>s.substring(a, b)\<close>: both ends truncated, clamped to \<open>[0, length]\<close>, and swapped when out of order.\<close>

definition clampIndex :: "nat \<Rightarrow> rat \<Rightarrow> nat" where
  "clampIndex n x = min (nat (max (toInteger x) 0)) n"

definition substring :: "string \<Rightarrow> rat \<Rightarrow> rat \<Rightarrow> string" where
  "substring s a b =
     (let finalStart = clampIndex (length s) a;
          finalEnd = clampIndex (length s) b;
          lo = min finalStart finalEnd;
          hi = max finalStart finalEnd
      in take (hi - lo) (drop lo s))"

definition trim :: "string \<Rightarrow> string" where
  "trim s = rev (dropWhile isSpace (rev (dropWhile isSpace s)))"

text \<open>\<open>s.replace(/\s+/g, ' ')\<close>: every maximal run of white space becomes one space.\<close>

function collapseSpaces :: "string \<Rightarrow> string" where
  "collapseSpaces [] = []"
| "collapseSpaces (c # cs) =
     (if isSpace c then CHR '' '' # collapseSpaces (dropWhile isSpace cs)
      else c # collapseSpaces cs)"
  by pat_completeness auto
termination
  by (relation "measure length") (auto simp: less_Suc_eq_le length_dropWhile_le)

text \<open>\<open>s.replace(/\n{3,}/g, '\n\n')\<close>: every maximal run of three or more newlines becomes two.\<close>

function collapseNewlines :: "string \<Rightarrow> string" where
  "collapseNewlines [] = []"
| "collapseNewlines (c # cs) =
     (if c = newline \<and> 2 \<le> length (takeWhile (\<lambda>d. d = newline) cs)
      then newline # newline # collapseNewlines (dropWhile (\<lambda>d. d = newline) cs)
      else c # collapseNewlines cs)"
  by pat_completeness auto
termination
  by (relation "measure length") (auto simp: less_Suc_eq_le length_dropWhile_le)

definition normalize :: "string \<Rightarrow> string" where
  "normalize text = trim (collapseNewlines (collapseSpaces text))"

text \<open>
  \<open>s.split(/\s+/)\<close>: the pieces between the maximal runs of white space; a run at either
  end leaves an empty piece there, and the empty string gives one empty piece.
\<close>

function splitSpaces :: "string \<Rightarrow> string list" where
  "splitSpaces s =
     (let w = takeWhile (\<lambda>c. \<not> isSpace c) s;
          r = dropWhile (\<lambda>c. \<not> isSpace c) s
      in case r of [] \<Rightarrow> [w] | _ # r' \<Rightarrow> w # splitSpaces (dropWhile isSpace r'))"
  by pat_completeness auto
termination
proof (relation "measure length", simp, goal_cases)
  case (1 s w r c r')
  have "length (dropWhile isSpace r') \<le> length r'"
    by (rule length_dropWhile_le)
  moreover have "length (c # r') \<le> length s"
    using 1 by (metis length_dropWhile_le)
  ultimately show ?case by simp
qed

declare splitSpaces.simps [simp del]

fun joinSpaces :: "string list \<Rightarrow> string" where
  "joinSpaces [] = []"
| "joinSpaces [w] = w"
| "joinSpaces (w # ws) = w @ CHR '' '' # joinSpaces ws"

text \<open>\<open>words.slice(0, e)\<close>: a negative end counts from the end of the array.\<close>

definition slice0 :: "'a list \<Rightarrow> rat \<Rightarrow> 'a list" where
  "slice0 xs e =
     (let n = int (length xs); k = toInteger e;
          final = (if k < 0 then max (n + k) 0 else min k n)
      in take (nat final) xs)"

text \<open>\<open>toLowerCase\<close> on code units below 256: A-Z and the accented capitals (not the times sign).\<close>

definition lowerChar :: "char \<Rightarrow> char" where
  "lowerChar c =
     (let n = of_char c :: nat
      in if (65 \<le> n \<and> n \<le> 90) \<or> (192 \<le> n \<and> n \<le> 222 \<and> n \<noteq> 215) then char_of (n + 32) else c)"

definition toLowerCase :: "string \<Rightarrow> string" where
  "toLowerCase s = map lowerChar s"

subsection \<open>Boundary search\<close>

definition isSentenceEnder :: "char \<Rightarrow> bool" where
  "isSentenceEnder c = (c \<in> set [CHR ''.'', CHR ''!'', CHR ''?''])"

text \<open>
  The \<open>exec\<close> loop over \<open>/[.!?]+\s/g\<close>: a match ends right after a white-space character
  that follows a sentence ender, and the search resumes there. \<open>i\<close> is the index of the
  first character of the remaining text, \<open>lastMatch\<close> the end of the last match so far.
\<close>

fun sentenceEnds :: "nat \<Rightarrow> int \<Rightarrow> string \<Rightarrow> int" where
  "sentenceEnds i lastMatch (c # d # cs) =
     (if isSentenceEnder c \<and> isSpace d then sentenceEnds (i + 2) (int i + 2) cs
      else sentenceEnds (i + 1) lastMatch (d # cs))"
| "sentenceEnds i lastMatch cs = lastMatch"

definition findLastSentenceEnd :: "string \<Rightarrow> nat" where
  "findLastSentenceEnd text =
     (let lastMatch = sentenceEnds 0 (- 1) text
      in if lastMatch > 0 then nat lastMatch else length text)"

text \<open>\<open>text.lastIndexOf(p)\<close>: the greatest index at which \<open>p\<close> occurs, or \<open>-1\<close>.\<close>

fun lastIndexFrom :: "nat \<Rightarrow> int \<Rightarrow> string \<Rightarrow> string \<Rightarrow> int" where
  "lastIndexFrom i found p [] = (if p = [] then int i else found)"
| "lastIndexFrom i found p (c # cs) =
     lastIndexFrom (i + 1) (if startsWith (c # cs) p then int i else found) p cs"

definition lastIndexOf :: "string \<Rightarrow> string \<Rightarrow> int" where
  "lastIndexOf text p = lastIndexFrom 0 (- 1) p text"

definition findLastParagraphEnd :: "string \<Rightarrow> nat" where
  "findLastParagraphEnd text =
     (let lastParagraph = lastIndexOf text [newline, newline]
      in if lastParagraph > 0 then nat (lastParagraph + 2) else length text)"

definition trimToWordLimit :: "string \<Rightarrow> rat \<Rightarrow> string" where
  "trimToWordLimit text wordLimit =
     (let words = splitSpaces text
      in if of_nat (length words) \<le> wordLimit then text
         else joinSpaces (slice0 words wordLimit))"

subsection \<open>Chunk identifiers\<close>

fun decimal :: "nat \<Rightarrow> string" where
  "decimal n =
     (if n < 10 then [''0123456789'' ! n]
      else decimal (n div 10) @ [''0123456789'' ! (n mod 10)])"

declare decimal.simps [simp del]

text \<open>\<open>generateChunkId\<close>; \<open>now\<close> is the reading of \<open>Date.now()\<close>.\<close>

definition generateChunkId :: "nat \<Rightarrow> nat \<Rightarrow> string" where
  "generateChunkId index now = ''chunk_'' @ decimal index @ ''_'' @ decimal now"

subsection \<open>\<open>chunkText\<close>\<close>

text \<open>
  The \<open>while\<close> body works on the pair \<open>(chunkEnd, chunkContent)\<close>: it is proposed,
  then cut back at a sentence end, at a paragraph end, and at the word limit.
\<close>

definition proposeChunk :: "ChunkingOptions \<Rightarrow> string \<Rightarrow> rat \<Rightarrow> rat \<times> string" where
  "proposeChunk opts cleanText currentIndex =
     (let chunkEnd = min (binary64 (currentIndex + maxCharsOf opts)) (of_nat (length cleanText))
      in (chunkEnd, substring cleanText currentIndex chunkEnd))"

fun preserveSentenceEnd ::
  "ChunkingOptions \<Rightarrow> string \<Rightarrow> rat \<Rightarrow> rat \<times> string \<Rightarrow> rat \<times> string" where
  "preserveSentenceEnd opts cleanText currentIndex (chunkEnd, chunkContent) =
     (if preserveSentencesOf opts \<and> chunkEnd < of_nat (length cleanText)
      then (let lastSentenceEnd = findLastSentenceEnd chunkContent
            in if (of_nat lastSentenceEnd :: rat)
                    > binary64 (of_nat (length chunkContent) * binary64 (7 / 10))
               then (binary64 (currentIndex + of_nat lastSentenceEnd),
                     substring cleanText currentIndex
                       (binary64 (currentIndex + of_nat lastSentenceEnd)))
               else (chunkEnd, chunkContent))
      else (chunkEnd, chunkContent))"

fun preserveParagraphEnd ::
  "ChunkingOptions \<Rightarrow> string \<Rightarrow> rat \<Rightarrow> rat \<times> string \<Rightarrow> rat \<times> string" where
  "preserveParagraphEnd opts cleanText currentIndex (chunkEnd, chunkContent) =
     (if preserveParagraphsOf opts \<and> chunkEnd < of_nat (length cleanText)
      then (let lastParagraphEnd = findLastParagraphEnd chunkContent
            in if (of_nat lastParagraphEnd :: rat)
                    > binary64 (of_nat (length chunkContent) * binary64 (6 / 10))
               then (binary64 (currentIndex + of_nat lastParagraphEnd),
                     substring cleanText currentIndex
                       (binary64 (currentIndex + of_nat lastParagraphEnd)))
               else (chunkEnd, chunkContent))
      else (chunkEnd, chunkContent))"

fun limitWords :: "ChunkingOptions \<Rightarrow> rat \<Rightarrow> rat \<times> string \<Rightarrow> rat \<times> string" where
  "limitWords opts currentIndex (chunkEnd, chunkContent) =
     (let currentWordCount = length (splitSpaces chunkContent)
      in if of_nat currentWordCount > maxWordsOf opts
         then (let trimmed = trimToWordLimit chunkContent (maxWordsOf opts)
               in (binary64 (currentIndex + of_nat (length trimmed)), trimmed))
         else (chunkEnd, chunkContent))"

definition cutChunk :: "ChunkingOptions \<Rightarrow> string \<Rightarrow> rat \<Rightarrow> rat \<times> string" where
  "cutChunk opts cleanText currentIndex =
     limitWords opts currentIndex
       (preserveParagraphEnd opts cleanText currentIndex
         (preserveSentenceEnd opts cleanText currentIndex
           (proposeChunk opts cleanText currentIndex)))"

text \<open>
  One pass of the \<open>while\<close> body up to the break test: the chunk pushed and the next
  \<open>currentIndex\<close>. \<open>clock n\<close> is the reading of \<open>Date.now()\<close> when the chunk with counter
  \<open>n\<close> gets its identifier.
\<close>

definition chunkBody ::
  "ChunkingOptions \<Rightarrow> (nat \<Rightarrow> nat) \<Rightarrow> string \<Rightarrow> rat \<Rightarrow> nat \<Rightarrow> TextChunk \<times> rat" where
  "chunkBody opts clock cleanText currentIndex chunkCounter =
     (let (chunkEnd, chunkContent) = cutChunk opts cleanText currentIndex;
          chunk = \<lparr>chunk_id = generateChunkId chunkCounter (clock chunkCounter),
                   content = trim chunkContent,
                   startIndex = currentIndex,
                   endIndex = chunkEnd,
                   wordCount = length (splitSpaces (trim chunkContent))\<rparr>;
          overlapChars = min (overlapOf opts)
                             (binary64 (of_nat (length chunkContent) * binary64 (3 / 10)))
      in (chunk, binary64 (chunkEnd - overlapChars)))"

text \<open>
  The \<open>while\<close> loop, returning the state it exits with: the chunks and \<open>currentIndex\<close>.
  It goes round again only after the break test
  \<open>currentIndex >= cleanText.length || chunks.length > 100\<close> has failed, so the number of
  chunks still allowed decreases.
\<close>

function chunkLoop ::
  "ChunkingOptions \<Rightarrow> (nat \<Rightarrow> nat) \<Rightarrow> string \<Rightarrow> rat \<Rightarrow> nat \<Rightarrow> TextChunk list
     \<Rightarrow> TextChunk list \<times> rat" where
  "chunkLoop opts clock cleanText currentIndex chunkCounter chunks =
     (if currentIndex < of_nat (length cleanText)
      then (let (chunk, next) = chunkBody opts clock cleanText currentIndex chunkCounter;
                chunks' = chunks @ [chunk]
            in if next \<ge> of_nat (length cleanText) \<or> length chunks' > 100 then (chunks', next)
               else chunkLoop opts clock cleanText next (chunkCounter + 1) chunks')
      else (chunks, currentIndex))"
  by pat_completeness auto
termination
  by (relation "measure (\<lambda>(opts, clock, cleanText, currentIndex, chunkCounter, chunks). 101 - length chunks)")
     auto

declare chunkLoop.simps [simp del]

definition chunkText :: "string \<Rightarrow> ChunkingOptions \<Rightarrow> (nat \<Rightarrow> nat) \<Rightarrow> TextChunk list" where
  "chunkText text opts clock =
     (let cleanText = normalize text
      in if length cleanText = 0 then []
         else (let wordCount = length (splitSpaces cleanText)
               in if of_nat wordCount \<le> maxWordsOf opts \<and> of_nat (length cleanText) \<le> maxCharsOf opts
                  then [\<lparr>chunk_id = generateChunkId 0 (clock 0),
                         content = cleanText,
                         startIndex = 0,
                         endIndex = of_nat (length cleanText),
                         wordCount = wordCount\<rparr>]
                  else fst (chunkLoop opts clock cleanText 0 0 [])))"

subsection \<open>\<open>deduplicateChunks\<close>\<close>

text \<open>
  \<open>calculateSimilarity\<close>: a JavaScript \<open>Set\<close> built from an array is the array without
  repetitions; the quotient of the two sizes is taken exactly.
\<close>

definition calculateSimilarity :: "string \<Rightarrow> string \<Rightarrow> rat" where
  "calculateSimilarity text1 text2 =
     (let words1 = remdups (splitSpaces (toLowerCase text1));
          words2 = remdups (splitSpaces (toLowerCase text2));
          intersection = remdups (filter (\<lambda>word. word \<in> set words2) words1);
          union = remdups (words1 @ words2)
      in of_nat (length intersection) / of_nat (length union))"

text \<open>The \<open>for\<close> loop over \<open>chunks[1..]\<close>; \<open>previous\<close> is the last element of \<open>deduplicated\<close>.\<close>

fun dedupLoop :: "TextChunk list \<Rightarrow> TextChunk list \<Rightarrow> TextChunk list" where
  "dedupLoop deduplicated [] = deduplicated"
| "dedupLoop deduplicated (current # rest) =
     (let previous = last deduplicated;
          similarity = calculateSimilarity (content current) (content previous)
      in if similarity < 7 / 10 then dedupLoop (deduplicated @ [current]) rest
         else dedupLoop deduplicated rest)"

definition deduplicateChunks :: "TextChunk list \<Rightarrow> TextChunk list" where
  "deduplicateChunks chunks =
     (if length chunks \<le> 1 then chunks
      else dedupLoop [hd chunks] (tl chunks))"

text \<open>
  The scan in the specification's words: a chunk is removed when its similarity to the
  immediately preceding kept chunk is at least 0.7; the first chunk is always kept.
\<close>

fun keepAfter :: "TextChunk \<Rightarrow> TextChunk list \<Rightarrow> TextChunk list" where
  "keepAfter kept [] = []"
| "keepAfter kept (c # cs) =
     (if 7 / 10 \<le> calculateSimilarity (content c) (content kept) then keepAfter kept cs
      else c # keepAfter c cs)"

fun deduplicate_spec :: "TextChunk list \<Rightarrow> TextChunk list" where
  "deduplicate_spec [] = []"
| "deduplicate_spec (c # cs) = c # keepAfter c cs"









definition oneWord :: ChunkingOptions where
  "oneWord = \<lparr>maxWords = Some 1, maxChars = None, overlap = Some 0,
               preserveParagraphs = None, preserveSentences = None\<rparr>"


definition chunkX :: TextChunk where
  "chunkX = \<lparr>chunk_id = ''chunk_0_0'', content = ''alpha beta'', startIndex = 0, endIndex = 10, wordCount = 2\<rparr>"

definition chunkY :: TextChunk where
  "chunkY = \<lparr>chunk_id = ''chunk_1_0'', content = ''gamma'', startIndex = 10, endIndex = 15, wordCount = 1\<rparr>"

definition chunkZ :: TextChunk where
  "chunkZ = \<lparr>chunk_id = ''chunk_2_0'', content = ''alpha beta'', startIndex = 15, endIndex = 25, wordCount = 2\<rparr>"

section \<open>Properties of the cache\<close>

subsection \<open>Auxiliary facts\<close>

lemma options_setInMemory [simp]: "options (setInMemory c k e) = options c"
  by (simp add: setInMemory_def Let_def)

lemma lookup_after_set:
  assumes "storage (options c) = Memory \<or> \<not> writeFails"
      and "cache_set c ls k d customTtl now1 now2 writeFails = (c', ls')"
  shows "backendLookup c' ls' k =
           Some \<lparr>data = d, timestamp = now1,
                 expiresAt = now2 + orElse customTtl (ttl (options c)), key = k\<rparr>"
  using assms
  by (auto simp: cache_set_def setInLocalStorage_def setInMemory_def backendLookup_def
                 getFromLocalStorage_def Let_def update_conv' split: if_splits Storage.splits)

lemma cache_get_lookup:
  "cache_get c ls k now =
     (case backendLookup c ls k of
        None \<Rightarrow> (None, c, ls)
      | Some e \<Rightarrow> if now > expiresAt e then (None, cache_delete c ls k) else (data e, c, ls))"
  by (simp add: cache_get_def backendLookup_def)

lemma lookup_after_delete:
  "cache_delete c ls k = (c', ls') \<Longrightarrow> backendLookup c' ls' k = None"
  by (auto simp: cache_delete_def backendLookup_def getFromLocalStorage_def delete_conv'
           split: if_splits)

lemma cache_set_memory:
  "storage (options c) = Memory \<Longrightarrow>
   cache_set c ls k d customTtl now1 now2 writeFails =
     (setInMemory c k \<lparr>data = d, timestamp = now1,
                        expiresAt = now2 + orElse customTtl (ttl (options c)), key = k\<rparr>, ls)"
  by (simp add: cache_set_def)

lemma update_new_key: "k \<notin> fst ` set m \<Longrightarrow> AList.update k e m = m @ [(k, e)]"
  by (induction m) auto

text \<open>
  Below or at capacity, setting a new key appends it, after dropping the first entry
  when the map is full.
\<close>

lemma setInMemory_new_key:
  assumes "distinct (map fst (memoryCache c))" and "k \<notin> fst ` set (memoryCache c)"
      and "1 \<le> maxEntries (options c)" and "int (length (memoryCache c)) \<le> maxEntries (options c)"
  shows "memoryCache (setInMemory c k e) =
           drop (Suc (length (memoryCache c)) - nat (maxEntries (options c))) (memoryCache c) @ [(k, e)]"
proof (cases "maxEntries (options c) \<le> int (length (memoryCache c))")
  case False
  then have "Suc (length (memoryCache c)) - nat (maxEntries (options c)) = 0" by linarith
  with False assms(2) show ?thesis
    by (simp add: setInMemory_def update_new_key)
next
  case True
  with assms(3,4) obtain k0 e0 m0 where m: "memoryCache c = (k0, e0) # m0"
    by (cases "memoryCache c") auto
  from True assms(4) have d: "Suc (length (memoryCache c)) - nat (maxEntries (options c)) = 1"
    by linarith
  from m assms(1) have "AList.delete k0 (memoryCache c) = m0" by simp
  moreover from m assms(2) have "k \<notin> fst ` set m0" by simp
  ultimately show ?thesis using True m d
    by (simp add: setInMemory_def update_new_key)
qed

text \<open>First in, first out: after a run of sets with new keys the map holds the newest keys.\<close>

lemma setAll_fifo:
  assumes "storage (options c) = Memory" and "1 \<le> maxEntries (options c)"
      and "distinct (map fst (memoryCache c) @ map fst calls)"
      and "int (length (memoryCache c)) \<le> maxEntries (options c)"
  shows "map fst (memoryCache (fst (setAll c ls calls))) =
           drop (length (memoryCache c) + length calls - nat (maxEntries (options c)))
                (map fst (memoryCache c) @ map fst calls)"
  using assms
proof (induction calls arbitrary: c ls)
  case Nil
  then show ?case by simp
next
  case (Cons call calls)
  obtain k d customTtl now1 now2 writeFails
    where call: "call = (k, d, customTtl, now1, now2, writeFails)"
    by (cases call)
  define e where "e = \<lparr>data = d, timestamp = now1,
                       expiresAt = now2 + orElse customTtl (ttl (options c)), key = k\<rparr>"
  define c' where "c' = setInMemory c k e"
  define n where "n = nat (maxEntries (options c))"
  define m where "m = memoryCache c"
  have n1: "1 \<le> n" and mn: "length m \<le> n"
    using Cons.prems(2,4) by (simp_all add: n_def m_def)
  have step: "cache_set c ls k d customTtl now1 now2 writeFails = (c', ls)"
    using Cons.prems(1) by (simp add: cache_set_memory c'_def e_def)
  have dist_all: "distinct ((map fst m @ [k]) @ map fst calls)"
    using Cons.prems(3) call by (simp add: m_def)
  then have knew: "k \<notin> fst ` set m" and dist: "distinct (map fst m)"
    by auto
  have mem: "memoryCache c' = drop (Suc (length m) - n) m @ [(k, e)]"
    unfolding c'_def n_def m_def
    using setInMemory_new_key[OF dist[unfolded m_def] knew[unfolded m_def] Cons.prems(2) Cons.prems(4)] .
  have opts: "options c' = options c" by (simp add: c'_def)
  define b where "b = Suc (length m) - n"
  have b_le: "b \<le> length m" using n1 by (simp add: b_def)
  have len: "length (memoryCache c') = Suc (length m) - b"
    using mem b_le by (simp add: b_def)
  have keys: "map fst (memoryCache c') = drop b (map fst m @ [k])"
    using mem b_le by (simp add: drop_map b_def)
  define X where "X = map fst m @ map fst (call # calls)"
  have X: "(map fst m @ [k]) @ map fst calls = X"
    using call by (simp add: X_def)
  have keys': "map fst (memoryCache c') @ map fst calls = drop b X"
    unfolding keys X[symmetric] using b_le by simp
  have "distinct X" using dist_all unfolding X .
  then have "distinct (map fst (memoryCache c') @ map fst calls)"
    unfolding keys' by (rule distinct_drop)
  moreover have "int (length (memoryCache c')) \<le> maxEntries (options c')"
    using len n1 mn Cons.prems(2) unfolding opts b_def n_def by linarith
  ultimately have IH: "map fst (memoryCache (fst (setAll c' ls calls))) =
           drop (length (memoryCache c') + length calls - n)
                (map fst (memoryCache c') @ map fst calls)"
    using Cons.IH[of c' ls] Cons.prems(1,2) opts by (simp add: n_def)
  define a where "a = length (memoryCache c') + length calls - n"
  have ab: "a + b = length m + length (call # calls) - n"
    unfolding a_def len using n1 mn unfolding b_def by simp
  have "drop a (drop b X) = drop (a + b) X"
    by (rule drop_drop)
  then have "map fst (memoryCache (fst (setAll c' ls calls))) =
               drop (length m + length (call # calls) - n) X"
    using IH unfolding keys' a_def[symmetric] ab by simp
  then show ?case
    using step call unfolding X_def m_def n_def by simp
qed

subsection \<open>Claims about the cache\<close>

text \<open>
  Claim C1. \<open>clear()\<close> of a cache on the persistent backend removes every key of the shared
  store that starts with \<open>cache_\<close>, the prefix all instances write under: after
  \<open>quizCache\<close> and \<open>pdfCache\<close> have each stored one entry, \<open>quizCache.clear()\<close> empties
  the store and \<open>pdfCache\<close> no longer finds its entry; before that, \<open>getStats\<close> of either
  instance counts both entries.
\<close>

theorem clear_wipes_other_instances:
  "(case cache_set quizCache [] ''quiz_a'' (Some (1::nat)) None 0 0 False of (q, ls1) \<Rightarrow>
    case cache_set pdfCache ls1 ''pdf_b'' (Some 2) None 0 0 False of (p, ls2) \<Rightarrow>
    case cache_clear q ls2 of (q', ls3) \<Rightarrow>
      fst (cache_get p ls2 ''pdf_b'' 1) = Some 2 \<and> fst (cache_get p ls3 ''pdf_b'' 1) = None
      \<and> ls3 = [] \<and> getStats q ls2 = 2 \<and> getStats p ls2 = 2)"
  by (simp add: cache_set_def setInLocalStorage_def quizCache_def pdfCache_def newCache_def
                orElse_def cache_clear_def cache_get_def getFromLocalStorage_def cacheKey_def
                getStats_def startsWith_def)

text \<open>
  Claim C2. When the persistent write fails, \<open>set\<close> does not raise and puts the entry into
  \<open>memoryCache\<close>; but \<open>get\<close> on the persistent backend reads \<open>localStorage\<close> only, so the
  entry is not found by the next \<open>get\<close>, before its expiry.
\<close>

theorem degraded_entry_not_retrievable:
  "(case cache_set quizCache [] ''k'' (Some (7::nat)) None 0 0 True of (c', ls') \<Rightarrow>
      map_option data (map_of (memoryCache c') ''k'') = Some (Some 7)
      \<and> ls' = [] \<and> cache_get c' ls' ''k'' 0 = (None, c', ls'))"
  by (simp add: cache_set_def setInLocalStorage_def setInMemory_def quizCache_def newCache_def
                orElse_def cache_get_def getFromLocalStorage_def cacheKey_def)

text \<open>
  Eviction on the memory backend, for new keys and \<open>maxEntries \<ge> 1\<close>: a \<open>set\<close> with a
  key not present, on a map holding exactly \<open>maxEntries\<close> entries, removes the
  oldest-inserted entry and nothing else, and appends the new entry; and
  \<open>maxEntries + 1\<close> sets with distinct keys on an empty map leave exactly \<open>maxEntries\<close>
  keys, all but the first.
\<close>

theorem memory_fifo_eviction:
  assumes "storage (options c) = Memory" and "1 \<le> maxEntries (options c)"
  shows "(distinct (map fst (memoryCache c)) \<and> int (length (memoryCache c)) = maxEntries (options c)
            \<and> k \<notin> fst ` set (memoryCache c)
          \<longrightarrow> memoryCache (fst (cache_set c ls k d customTtl now1 now2 writeFails)) =
                tl (memoryCache c) @
                [(k, \<lparr>data = d, timestamp = now1,
                      expiresAt = now2 + orElse customTtl (ttl (options c)), key = k\<rparr>)])
       \<and> (memoryCache c = [] \<and> distinct (map fst calls)
            \<and> int (length calls) = maxEntries (options c) + 1
          \<longrightarrow> map fst (memoryCache (fst (setAll c ls calls))) = tl (map fst calls)
              \<and> int (length (memoryCache (fst (setAll c ls calls)))) = maxEntries (options c))"
proof (intro conjI impI)
  assume h: "distinct (map fst (memoryCache c)) \<and> int (length (memoryCache c)) = maxEntries (options c)
            \<and> k \<notin> fst ` set (memoryCache c)"
  then have "Suc (length (memoryCache c)) - nat (maxEntries (options c)) = 1" by linarith
  with h setInMemory_new_key[of c k _] assms
  show "memoryCache (fst (cache_set c ls k d customTtl now1 now2 writeFails)) =
                tl (memoryCache c) @
                [(k, \<lparr>data = d, timestamp = now1,
                      expiresAt = now2 + orElse customTtl (ttl (options c)), key = k\<rparr>)]"
    by (simp add: cache_set_memory drop_Suc)
next
  assume h: "memoryCache c = [] \<and> distinct (map fst calls)
            \<and> int (length calls) = maxEntries (options c) + 1"
  then have d: "length (memoryCache c) + length calls - nat (maxEntries (options c)) = 1"
    using assms(2) by simp linarith
  have "distinct (map fst (memoryCache c) @ map fst calls)"
    and "int (length (memoryCache c)) \<le> maxEntries (options c)"
    using h assms(2) by simp_all
  from setAll_fifo[OF assms this, of ls]
  have keys: "map fst (memoryCache (fst (setAll c ls calls))) = drop 1 (map fst calls)"
    unfolding d using h by simp
  then show "map fst (memoryCache (fst (setAll c ls calls))) = tl (map fst calls)"
    by (simp add: drop_Suc)
  have "length (map fst (memoryCache (fst (setAll c ls calls)))) = length calls - 1"
    unfolding keys by simp
  then have "length (memoryCache (fst (setAll c ls calls))) = length calls - 1"
    by simp
  then show "int (length (memoryCache (fst (setAll c ls calls)))) = maxEntries (options c)"
    using h assms(2) by linarith
qed

theorem memory_fifo_eviction_example:
  "storage (options fullCache) = Memory \<and> 1 \<le> maxEntries (options fullCache)
   \<and> (distinct (map fst (memoryCache fullCache))
        \<and> int (length (memoryCache fullCache)) = maxEntries (options fullCache)
        \<and> ''c'' \<notin> fst ` set (memoryCache fullCache))
   \<and> memoryCache (fst (cache_set fullCache [] ''c'' (Some 3) None 2 2 False)) =
        [(''b'', entryB), (''c'', \<lparr>data = Some 3, timestamp = 2, expiresAt = 1800002, key = ''c''\<rparr>)]
   \<and> storage (options smallCache) = Memory \<and> 1 \<le> maxEntries (options smallCache)
   \<and> map fst (memoryCache (fst (setAll smallCache []
        [(''a'', Some 1, None, 0, 0, False), (''b'', Some 2, None, 1, 1, False),
         (''c'', Some 3, None, 2, 2, False)]))) = [''b'', ''c'']"
proof -
  have f1: "storage (options fullCache) = Memory" and f2: "1 \<le> maxEntries (options fullCache)"
    and s1: "storage (options smallCache) = Memory" and s2: "1 \<le> maxEntries (options smallCache)"
    by (simp_all add: fullCache_def smallCache_def newCache_def orElse_def)
  have p: "distinct (map fst (memoryCache fullCache))
        \<and> int (length (memoryCache fullCache)) = maxEntries (options fullCache)
        \<and> ''c'' \<notin> fst ` set (memoryCache fullCache)"
    by (simp add: fullCache_def smallCache_def newCache_def orElse_def)
  have q: "memoryCache smallCache = []
        \<and> distinct (map fst [(''a'', Some (1::nat), None :: int option, 0::int, 0::int, False),
                             (''b'', Some 2, None, 1, 1, False), (''c'', Some 3, None, 2, 2, False)])
        \<and> int (length [(''a'', Some (1::nat), None :: int option, 0::int, 0::int, False),
                             (''b'', Some 2, None, 1, 1, False), (''c'', Some 3, None, 2, 2, False)])
            = maxEntries (options smallCache) + 1"
    by (simp add: smallCache_def newCache_def orElse_def)
  from memory_fifo_eviction[OF f1 f2, where k = "''c''" and ls = "[]" and d = "Some 3"
        and customTtl = None and ?now1.0 = 2 and ?now2.0 = 2 and writeFails = False] p
  have a: "memoryCache (fst (cache_set fullCache [] ''c'' (Some 3) None 2 2 False)) =
        [(''b'', entryB), (''c'', \<lparr>data = Some 3, timestamp = 2, expiresAt = 1800002, key = ''c''\<rparr>)]"
    by (simp add: fullCache_def smallCache_def newCache_def orElse_def)
  from memory_fifo_eviction[OF s1 s2, where ls = "[]" and calls = "[(''a'', Some 1, None, 0, 0, False),
        (''b'', Some 2, None, 1, 1, False), (''c'', Some 3, None, 2, 2, False)]"] q
  have b: "map fst (memoryCache (fst (setAll smallCache []
        [(''a'', Some 1, None, 0, 0, False), (''b'', Some 2, None, 1, 1, False),
         (''c'', Some 3, None, 2, 2, False)]))) = [''b'', ''c'']"
    by simp
  from f1 f2 s1 s2 p a b show ?thesis by blast
qed

text \<open>
  Claim C4. \<open>setInMemory\<close> evicts whenever the map is at \<open>maxEntries\<close>, also when the
  key is already present: with \<open>maxEntries = 2\<close> and the keys \<open>a\<close>, \<open>b\<close> stored, setting
  \<open>b\<close> again removes \<open>a\<close> and leaves one key. The persistent backend never evicts: with
  \<open>maxEntries = 1\<close>, two distinct keys both stay in the store.
\<close>

theorem set_existing_key_evicts:
  "map fst (memoryCache fullCache) = [''a'', ''b''] \<and> maxEntries (options fullCache) = 2
   \<and> map fst (memoryCache (fst (cache_set fullCache [] ''b'' (Some 5) None 2 2 False))) = [''b'']
   \<and> maxEntries (options smallStoreCache) = 1
   \<and> map fst (snd (setAll smallStoreCache []
        [(''a'', Some 1, None, 0, 0, False), (''b'', Some 2, None, 1, 1, False)]))
       = [''cache_a'', ''cache_b'']"
  by (simp add: smallStoreCache_def fullCache_def smallCache_def newCache_def orElse_def
                cache_set_def setInLocalStorage_def setInMemory_def cacheKey_def)

text \<open>
  Claim C7, as amended. \<open>get\<close> reads one backend (\<open>backendLookup\<close>): \<open>memoryCache\<close> on a
  memory instance, \<open>localStorage\<close> on a persistent one. If the entry which that backend
  holds for the key is unexpired and its payload is not \<open>null\<close>, \<open>getOrSet\<close> returns that
  payload and leaves the cache, the store and the world as they are: the generator is not
  invoked. If \<open>get\<close> answers \<open>null\<close> and the generator fails, the outcome is the
  generator's error, the world is the one that a single run of the generator leaves (it
  is not run again), and nothing is stored: cache and store are as \<open>get\<close> left them,
  which is as they were before the call unless the backend held an expired entry for the
  key (the read has deleted it). An entry that a failed persistent write has put into
  \<open>memoryCache\<close> is not in the backend that \<open>get\<close> reads (claim C2); nothing is stated
  about it here.
\<close>

theorem getOrSet_hit_and_failure:
  "(backendLookup c ls k = Some e \<and> \<not> now > expiresAt e \<and> data e = Some v
      \<longrightarrow> getOrSet c ls k generator world customTtl now now1 now2 writeFails =
            \<lparr>outcome = Inr (Some v), cacheAfter = c, storeAfter = ls,
             worldAfter = world, generatorCalls = 0\<rparr>)
   \<and> (fst (cache_get c ls k now) = None \<and> fst (generator world) = Inl err
      \<longrightarrow> outcome (getOrSet c ls k generator world customTtl now now1 now2 writeFails) = Inl err
          \<and> worldAfter (getOrSet c ls k generator world customTtl now now1 now2 writeFails)
              = snd (generator world)
          \<and> (cacheAfter (getOrSet c ls k generator world customTtl now now1 now2 writeFails),
              storeAfter (getOrSet c ls k generator world customTtl now now1 now2 writeFails))
              = snd (cache_get c ls k now)
          \<and> ((\<forall>x. backendLookup c ls k = Some x \<longrightarrow> \<not> now > expiresAt x)
               \<longrightarrow> snd (cache_get c ls k now) = (c, ls)))"
  by (cases "cache_get c ls k now"; cases "generator world")
     (auto simp: getOrSet_def cache_get_lookup split: option.splits if_splits)

theorem getOrSet_hit_and_failure_witness:
  "(backendLookup fullCache [] ''a'' = Some entryA \<and> \<not> 5 > expiresAt entryA \<and> data entryA = Some 1)
   \<and> getOrSet fullCache [] ''a'' failing 0 None 5 5 5 False =
        \<lparr>outcome = Inr (Some 1), cacheAfter = fullCache, storeAfter = [],
         worldAfter = 0, generatorCalls = 0\<rparr>
   \<and> (fst (cache_get nullCache [] ''n'' 5) = None \<and> failing 0 = (Inl ''producer failed'', 1))
   \<and> map_option expiresAt (backendLookup nullCache [] ''n'') = Some 1800000
   \<and> outcome (getOrSet nullCache [] ''n'' failing 0 None 5 5 5 False) = Inl ''producer failed''
   \<and> worldAfter (getOrSet nullCache [] ''n'' failing 0 None 5 5 5 False) = 1
   \<and> (cacheAfter (getOrSet nullCache [] ''n'' failing 0 None 5 5 5 False),
       storeAfter (getOrSet nullCache [] ''n'' failing 0 None 5 5 5 False)) = (nullCache, [])"
proof -
  have p: "backendLookup fullCache [] ''a'' = Some entryA \<and> \<not> 5 > expiresAt entryA
           \<and> data entryA = Some 1"
    by (simp add: backendLookup_def fullCache_def smallCache_def newCache_def entryA_def)
  have f: "failing 0 = (Inl ''producer failed'', 1)"
    by (simp add: failing_def)
  have q: "fst (cache_get nullCache [] ''n'' 5) = None \<and> fst (failing 0) = Inl ''producer failed''"
    by (simp add: cache_get_def nullCache_def smallCache_def newCache_def failing_def)
  have r: "\<forall>x. backendLookup nullCache [] ''n'' = Some x \<longrightarrow> \<not> 5 > expiresAt x"
    by (simp add: backendLookup_def nullCache_def smallCache_def newCache_def)
  from getOrSet_hit_and_failure[where c = fullCache and ls = "[]" and k = "''a''" and e = entryA
        and now = 5 and v = 1 and generator = failing and world = 0 and customTtl = None
        and ?now1.0 = 5 and ?now2.0 = 5 and writeFails = False] p
  have a: "getOrSet fullCache [] ''a'' failing 0 None 5 5 5 False =
        \<lparr>outcome = Inr (Some 1), cacheAfter = fullCache, storeAfter = [],
         worldAfter = 0, generatorCalls = 0\<rparr>"
    by blast
  from getOrSet_hit_and_failure[where c = nullCache and ls = "[]" and k = "''n''"
        and now = 5 and generator = failing and world = 0 and err = "''producer failed''"
        and customTtl = None and ?now1.0 = 5 and ?now2.0 = 5 and writeFails = False] q r
  have b: "outcome (getOrSet nullCache [] ''n'' failing 0 None 5 5 5 False) = Inl ''producer failed''
     \<and> worldAfter (getOrSet nullCache [] ''n'' failing 0 None 5 5 5 False) = snd (failing 0)
     \<and> (cacheAfter (getOrSet nullCache [] ''n'' failing 0 None 5 5 5 False),
       storeAfter (getOrSet nullCache [] ''n'' failing 0 None 5 5 5 False)) = (nullCache, [])"
    by metis
  have r': "map_option expiresAt (backendLookup nullCache [] ''n'') = Some 1800000"
    by (simp add: backendLookup_def nullCache_def smallCache_def newCache_def)
  from p q r' a b f show ?thesis by simp
qed

text \<open>
  The claim as stated fails for an unexpired entry whose payload is \<open>null\<close>: the generator
  is invoked (its count of invocations goes from 0 to 1). And the state does change when
  the generator fails, after the read has deleted an expired entry.
\<close>

theorem getOrSet_counterexample:
  "map_option expiresAt (backendLookup nullCache [] ''n'') = Some 1800000
   \<and> worldAfter (getOrSet nullCache [] ''n'' producing 0 None 5 5 5 False) = 1
   \<and> outcome (getOrSet expiredCache [] ''x'' failing 0 None 11 11 11 False) = Inl ''producer failed''
   \<and> cacheAfter (getOrSet expiredCache [] ''x'' failing 0 None 11 11 11 False) \<noteq> expiredCache
   \<and> memoryCache (cacheAfter (getOrSet expiredCache [] ''x'' failing 0 None 11 11 11 False)) = []"
  by (simp add: backendLookup_def nullCache_def expiredCache_def smallCache_def newCache_def
                orElse_def getOrSet_def cache_get_def cache_delete_def cache_set_def
                setInMemory_def producing_def failing_def)

text \<open>
  Lazy eviction. On the memory backend, or when the persistent write is accepted:
  after \<open>set(k, v, t)\<close> with \<open>t > 0\<close> the entry expires at the second clock reading of
  \<open>set\<close> plus \<open>t\<close>; a \<open>get(k)\<close> later than that answers \<open>null\<close> and leaves no entry for
  \<open>k\<close> in the backend, and a \<open>get(k)\<close> not later than that answers \<open>v\<close> and changes
  nothing.
\<close>

theorem expired_entry_lazily_evicted:
  assumes "storage (options c) = Memory \<or> \<not> writeFails" and "0 < t"
  shows "(now > now2 + t \<longrightarrow>
            (case setThenGet c ls k v (Some t) now1 now2 writeFails now of
               (r, c'', ls'') \<Rightarrow> r = None \<and> backendLookup c'' ls'' k = None))
       \<and> (\<not> now > now2 + t \<longrightarrow>
            setThenGet c ls k v (Some t) now1 now2 writeFails now =
              (v, cache_set c ls k v (Some t) now1 now2 writeFails))"
proof -
  obtain c' ls' where s: "cache_set c ls k v (Some t) now1 now2 writeFails = (c', ls')"
    by (cases "cache_set c ls k v (Some t) now1 now2 writeFails")
  have t: "orElse (Some t) (ttl (options c)) = t"
    using assms(2) by (simp add: orElse_def)
  note l = lookup_after_set[OF assms(1) s, unfolded t]
  show ?thesis
  proof (intro conjI impI)
    assume "now > now2 + t"
    then show "case setThenGet c ls k v (Some t) now1 now2 writeFails now of
               (r, c'', ls'') \<Rightarrow> r = None \<and> backendLookup c'' ls'' k = None"
      using l s by (cases "cache_delete c' ls' k")
        (auto simp: setThenGet_def cache_get_lookup dest: lookup_after_delete)
  next
    assume "\<not> now > now2 + t"
    then show "setThenGet c ls k v (Some t) now1 now2 writeFails now =
              (v, cache_set c ls k v (Some t) now1 now2 writeFails)"
      using l s by (simp add: setThenGet_def cache_get_lookup)
  qed
qed

theorem expired_entry_lazily_evicted_example:
  "storage (options smallCache) = Memory \<and> (0::int) < 1
   \<and> (2::int) > 0 + 1
   \<and> (case setThenGet smallCache [] ''k'' (Some 7) (Some 1) 0 0 False 2 of
         (r, c'', ls'') \<Rightarrow> r = None \<and> backendLookup c'' ls'' ''k'' = None)
   \<and> \<not> (1::int) > 0 + 1
   \<and> setThenGet smallCache [] ''k'' (Some 7) (Some 1) 0 0 False 1 =
         (Some 7, cache_set smallCache [] ''k'' (Some 7) (Some 1) 0 0 False)"
proof -
  have h: "storage (options smallCache) = Memory \<or> \<not> False"
    by (simp add: smallCache_def newCache_def)
  have t: "(0::int) < 1" by simp
  from expired_entry_lazily_evicted[OF h t, where ?now2.0 = 0 and now = 2 and ls = "[]"
         and k = "''k''" and v = "Some 7" and ?now1.0 = 0]
  have a: "case setThenGet smallCache [] ''k'' (Some 7) (Some 1) 0 0 False 2 of
         (r, c'', ls'') \<Rightarrow> r = None \<and> backendLookup c'' ls'' ''k'' = None"
    by simp
  from expired_entry_lazily_evicted[OF h t, where ?now2.0 = 0 and now = 1 and ls = "[]"
         and k = "''k''" and v = "Some 7" and ?now1.0 = 0]
  have b: "setThenGet smallCache [] ''k'' (Some 7) (Some 1) 0 0 False 1 =
         (Some 7, cache_set smallCache [] ''k'' (Some 7) (Some 1) 0 0 False)"
    by simp
  from h a b show ?thesis by (simp add: smallCache_def newCache_def)
qed

text \<open>
  Claim C8. On the persistent backend, when the write of \<open>set(k, v, t)\<close> fails the new
  entry goes to memory; a \<open>get(k)\<close> after its expiry reads the older, still valid entry
  that \<open>localStorage\<close> holds for the key and answers its payload instead of \<open>null\<close>,
  and the expired entry stays in \<open>memoryCache\<close>.
\<close>

theorem expired_get_answers_stale_entry:
  "(case setThenGet quizCache staleStore ''k'' (Some 2) (Some 1) 0 0 True 5 of
      (r, c'', ls'') \<Rightarrow>
        r = Some 1
        \<and> map_option expiresAt (map_of (memoryCache c'') ''k'') = Some 1
        \<and> ls'' = staleStore)"
  by (simp add: setThenGet_def cache_set_def setInLocalStorage_def setInMemory_def
                quizCache_def newCache_def orElse_def staleStore_def cache_get_def
                getFromLocalStorage_def cacheKey_def)

text \<open>
  Round trip. On the memory backend, or when the persistent write is accepted:
  \<open>set(k, v)\<close> followed by \<open>get(k)\<close> not later than the entry's expiry returns \<open>v\<close>.
\<close>

theorem set_get_roundtrip:
  assumes "storage (options c) = Memory \<or> \<not> writeFails"
      and "\<not> now > now2 + orElse customTtl (ttl (options c))"
  shows "fst (setThenGet c ls k v customTtl now1 now2 writeFails now) = v"
proof -
  obtain c' ls' where s: "cache_set c ls k v customTtl now1 now2 writeFails = (c', ls')"
    by (cases "cache_set c ls k v customTtl now1 now2 writeFails")
  from lookup_after_set[OF assms(1) s] assms(2) s show ?thesis
    by (simp add: setThenGet_def cache_get_lookup)
qed

theorem set_get_roundtrip_example:
  "storage (options smallCache) = Memory
   \<and> \<not> (0::int) > 0 + orElse None (ttl (options smallCache))
   \<and> fst (setThenGet smallCache [] ''k'' (Some 7) None 0 0 False 0) = Some 7
   \<and> storage (options (quizCache :: nat Cache)) = LocalStorage
   \<and> \<not> (0::int) > 0 + orElse None (ttl (options (quizCache :: nat Cache)))
   \<and> fst (setThenGet quizCache [] ''k'' (Some (7::nat)) None 0 0 False 0) = Some 7"
proof -
  have h1: "storage (options smallCache) = Memory \<or> \<not> False"
    and h2: "\<not> (0::int) > 0 + orElse None (ttl (options smallCache))"
    and g1: "storage (options (quizCache :: nat Cache)) = Memory \<or> \<not> False"
    and g2: "\<not> (0::int) > 0 + orElse None (ttl (options (quizCache :: nat Cache)))"
    by (simp_all add: smallCache_def quizCache_def newCache_def orElse_def)
  from set_get_roundtrip[OF h1 h2] set_get_roundtrip[OF g1 g2] h1 h2 g1 g2
  show ?thesis by (simp add: smallCache_def quizCache_def newCache_def)
qed

text \<open>
  Claim C9. On the persistent backend, when the write of \<open>set(k, v)\<close> fails the entry is
  put into memory, where \<open>get\<close> does not look: the immediate \<open>get(k)\<close> answers
  \<open>null\<close>, not \<open>v\<close>.
\<close>

theorem roundtrip_lost_on_write_failure:
  "fst (setThenGet quizCache [] ''k'' (Some (5::nat)) None 0 0 True 0) = None"
  by (simp add: setThenGet_def cache_set_def setInLocalStorage_def setInMemory_def
                quizCache_def newCache_def orElse_def cache_get_def
                getFromLocalStorage_def cacheKey_def)

text \<open>
  A \<open>null\<close> payload. On the memory backend, or when the persistent write is accepted:
  after \<open>set(k, null)\<close> the backend holds an entry for \<open>k\<close>, and while it is unexpired
  \<open>get(k)\<close> answers \<open>null\<close>, which is also the answer for a key with no entry, and
  \<open>getOrSet(k, generator)\<close> invokes the generator.
\<close>

theorem null_payload_reads_as_miss:
  assumes "storage (options c) = Memory \<or> \<not> writeFails"
      and "\<not> now > now2 + orElse customTtl (ttl (options c))"
  shows "(case cache_set c ls k None customTtl now1 now2 writeFails of (c', ls') \<Rightarrow>
           backendLookup c' ls' k =
             Some \<lparr>data = None, timestamp = now1,
                   expiresAt = now2 + orElse customTtl (ttl (options c)), key = k\<rparr>
         \<and> fst (cache_get c' ls' k now) = None
         \<and> (backendLookup c0 ls0 k = None
              \<longrightarrow> fst (cache_get c0 ls0 k now) = fst (cache_get c' ls' k now))
         \<and> generatorCalls (getOrSet c' ls' k generator world customTtl' now nowA nowB writeFails') = 1
         \<and> worldAfter (getOrSet c' ls' k generator world customTtl' now nowA nowB writeFails')
             = snd (generator world))"
proof -
  obtain c' ls' where s: "cache_set c ls k None customTtl now1 now2 writeFails = (c', ls')"
    by (cases "cache_set c ls k None customTtl now1 now2 writeFails")
  from lookup_after_set[OF assms(1) s] assms(2) show ?thesis
    unfolding s
    by (auto simp: getOrSet_def cache_get_lookup split: sum.splits prod.splits)
qed

theorem null_payload_reads_as_miss_example:
  "storage (options smallCache) = Memory
   \<and> \<not> (5::int) > 0 + orElse None (ttl (options smallCache))
   \<and> backendLookup fullCache [] ''k'' = None
   \<and> (case cache_set smallCache [] ''k'' None None 0 0 False of (c', ls') \<Rightarrow>
         backendLookup c' ls' ''k'' \<noteq> None
       \<and> fst (cache_get c' ls' ''k'' 5) = None
       \<and> fst (cache_get fullCache [] ''k'' 5) = fst (cache_get c' ls' ''k'' 5)
       \<and> generatorCalls (getOrSet c' ls' ''k'' producing 0 None 5 5 5 False) = 1
       \<and> worldAfter (getOrSet c' ls' ''k'' producing 0 None 5 5 5 False) = 1)"
proof -
  have h1: "storage (options smallCache) = Memory \<or> \<not> False"
    and h2: "\<not> (5::int) > 0 + orElse None (ttl (options smallCache))"
    by (simp_all add: smallCache_def newCache_def orElse_def)
  have m: "backendLookup fullCache [] ''k'' = None"
    by (simp add: backendLookup_def fullCache_def smallCache_def newCache_def)
  from null_payload_reads_as_miss[OF h1 h2, where k = "''k''" and ls = "[]" and ?now1.0 = 0
         and ?c0.0 = fullCache and ?ls0.0 = "[]" and generator = producing and world = 0
         and customTtl' = None
         and nowA = 5 and nowB = 5 and writeFails' = False] m
  have "case cache_set smallCache [] ''k'' None None 0 0 False of (c', ls') \<Rightarrow>
         backendLookup c' ls' ''k'' \<noteq> None
       \<and> fst (cache_get c' ls' ''k'' 5) = None
       \<and> fst (cache_get fullCache [] ''k'' 5) = fst (cache_get c' ls' ''k'' 5)
       \<and> generatorCalls (getOrSet c' ls' ''k'' producing 0 None 5 5 5 False) = 1
       \<and> worldAfter (getOrSet c' ls' ''k'' producing 0 None 5 5 5 False) = 1"
    by (auto simp: producing_def split: prod.splits)
  with h1 h2 m show ?thesis by (simp add: smallCache_def newCache_def)
qed

text \<open>
  Claim C10. On the persistent backend, when the write of \<open>set(k, null)\<close> fails while
  \<open>localStorage\<close> still holds an older, valid entry for the key, \<open>get(k)\<close> answers the
  older payload, not \<open>null\<close>, and \<open>getOrSet\<close> returns it without invoking the generator
  (no invocation is made, and the generator's count of invocations stays 0).
\<close>

theorem null_write_failure_reads_stale_entry:
  "(case cache_set quizCache staleStore ''k'' None None 0 0 True of (c', ls') \<Rightarrow>
      fst (cache_get c' ls' ''k'' 0) = Some 1
      \<and> generatorCalls (getOrSet c' ls' ''k'' producing 0 None 0 0 0 False) = 0
      \<and> worldAfter (getOrSet c' ls' ''k'' producing 0 None 0 0 0 False) = 0)"
  by (simp add: cache_set_def setInLocalStorage_def setInMemory_def quizCache_def newCache_def
                orElse_def staleStore_def cache_get_def getFromLocalStorage_def cacheKey_def
                getOrSet_def)

section \<open>Properties of the chunker\<close>

subsection \<open>\<open>deduplicateChunks\<close>\<close>

lemma dedupLoop_keepAfter:
  "deduplicated \<noteq> [] \<Longrightarrow>
   dedupLoop deduplicated cs = deduplicated @ keepAfter (last deduplicated) cs"
proof (induction cs arbitrary: deduplicated)
  case Nil
  then show ?case by simp
next
  case (Cons c cs)
  show ?case
  proof (cases "calculateSimilarity (content c) (content (last deduplicated)) < 7 / 10")
    case True
    with Cons.IH[of "deduplicated @ [c]"] show ?thesis by simp
  next
    case False
    with Cons.IH[OF Cons.prems] show ?thesis by simp
  qed
qed

lemma deduplicate_refines: "deduplicateChunks chunks = deduplicate_spec chunks"
proof (cases chunks)
  case Nil
  then show ?thesis by (simp add: deduplicateChunks_def)
next
  case (Cons c cs)
  then show ?thesis
    by (cases cs) (simp_all add: deduplicateChunks_def dedupLoop_keepAfter)
qed

lemma splitSpaces_nonempty: "splitSpaces s \<noteq> []"
  by (subst splitSpaces.simps) (simp add: Let_def split: list.split)

text \<open>Two chunks with the same content have similarity 1.\<close>

lemma calculateSimilarity_same: "calculateSimilarity s s = 1"
proof -
  define ws where "ws = remdups (splitSpaces (toLowerCase s))"
  have ne: "ws \<noteq> []" by (simp add: ws_def splitSpaces_nonempty)
  have d: "distinct ws" by (simp add: ws_def)
  have i: "length (remdups (filter (\<lambda>word. word \<in> set ws) ws)) = length ws"
    using d by (simp add: distinct_remdups_id)
  have u: "length (remdups (ws @ ws)) = length ws"
    using d by (simp add: length_remdups_card_conv distinct_card)
  show ?thesis
    unfolding calculateSimilarity_def Let_def ws_def[symmetric] i u
    using ne by simp
qed

lemma keepAfter_successively:
  "successively (\<lambda>a b. calculateSimilarity (content b) (content a) < 7 / 10) (c # keepAfter c cs)"
  by (induction cs arbitrary: c) simp_all

text \<open>
  Claim C5, as amended. \<open>deduplicateChunks\<close> keeps the first chunk; it computes the scan
  that removes a chunk exactly when its similarity to the immediately preceding kept chunk
  is at least 0.7; and any two chunks that are consecutive in the output have similarity
  below 0.7, hence different contents.
\<close>

theorem deduplicate_adjacent:
  "(chunks \<noteq> [] \<longrightarrow> hd (deduplicateChunks chunks) = hd chunks)
   \<and> deduplicateChunks chunks = deduplicate_spec chunks
   \<and> successively
        (\<lambda>a b. calculateSimilarity (content b) (content a) < 7 / 10 \<and> content a \<noteq> content b)
        (deduplicateChunks chunks)"
proof -
  have imp: "calculateSimilarity (content b) (content a) < 7 / 10 \<Longrightarrow>
          calculateSimilarity (content b) (content a) < 7 / 10 \<and> content a \<noteq> content b"
    for a b :: TextChunk
    using calculateSimilarity_same[of "content a"] by auto
  have "successively (\<lambda>a b. calculateSimilarity (content b) (content a) < 7 / 10)
          (deduplicate_spec chunks)"
  proof (cases chunks)
    case Nil
    then show ?thesis by simp
  next
    case (Cons c cs)
    then show ?thesis using keepAfter_successively[of c cs] by simp
  qed
  then have "successively
        (\<lambda>a b. calculateSimilarity (content b) (content a) < 7 / 10 \<and> content a \<noteq> content b)
        (deduplicate_spec chunks)"
    by (rule successively_mono) (use imp in blast)+
  then show ?thesis
    by (cases chunks) (simp_all add: deduplicate_refines)
qed

theorem deduplicate_adjacent_witness:
  "[chunkX, chunkZ, chunkY] \<noteq> []
   \<and> hd (deduplicateChunks [chunkX, chunkZ, chunkY]) = chunkX
   \<and> deduplicateChunks [chunkX, chunkZ, chunkY] = deduplicate_spec [chunkX, chunkZ, chunkY]
   \<and> deduplicateChunks [chunkX, chunkZ, chunkY] = [chunkX, chunkY]"
proof -
  have "deduplicateChunks [chunkX, chunkZ, chunkY] = [chunkX, chunkY]"
    by code_simp
  with deduplicate_adjacent[of "[chunkX, chunkZ, chunkY]"] show ?thesis
    by simp
qed

text \<open>
  The claim as stated fails for chunks with identical content that are not adjacent in
  the kept sequence: with a dissimilar chunk between them both survive.
\<close>

theorem deduplicate_counterexample:
  "content chunkX = content chunkZ \<and> chunk_id chunkX \<noteq> chunk_id chunkZ
   \<and> deduplicateChunks [chunkX, chunkY, chunkZ] = [chunkX, chunkY, chunkZ]"
proof -
  have "deduplicateChunks [chunkX, chunkY, chunkZ] = [chunkX, chunkY, chunkZ]"
    by code_simp
  then show ?thesis
    by (simp add: chunkX_def chunkZ_def)
qed

subsection \<open>Rounding to the nearest double\<close>

text \<open>
  \<open>binary64\<close> is monotone and idempotent, and it leaves the integers below \<open>2 ^ 53\<close> as
  they are.
\<close>

lemma pow2_add: "(2::rat) powi (a + b) = 2 powi a * 2 powi b"
  by (simp add: power_int_add)

lemma pow2_pos: "0 < (2::rat) powi a"
  by simp

lemma pow2_mono: "a \<le> b \<Longrightarrow> (2::rat) powi a \<le> 2 powi b"
  by (rule power_int_increasing) simp_all


lemma pow2_less_D: "(2::rat) powi a < 2 powi b \<Longrightarrow> a < b"
  using pow2_mono[of b a] by (cases "a < b") simp_all

lemma pow2_split52: "(2::rat) powi e = 2 ^ 52 * 2 powi (e - 52)"
proof -
  have "(2::rat) powi (52 + (e - 52)) = 2 powi 52 * 2 powi (e - 52)" by (rule pow2_add)
  then show ?thesis by simp
qed

lemma pow2_split53: "(2::rat) powi (e + 1) = 2 ^ 53 * 2 powi (e - 52)"
proof -
  have "(2::rat) powi (53 + (e - 52)) = 2 powi 53 * 2 powi (e - 52)" by (rule pow2_add)
  moreover have "53 + (e - 52) = e + 1" by simp
  ultimately show ?thesis by simp
qed

lemma bitlen_pow2_bounds:
  assumes "0 < a"
  shows "(2::rat) powi (bitlen a - 1) \<le> of_int a" and "of_int a < (2::rat) powi bitlen a"
proof -
  have b1: "1 \<le> bitlen a" using assms bitlen_eq_zero_iff[of a] bitlen_nonneg[of a] by linarith
  from bitlen_bounds[OF assms]
  have lo: "2 ^ nat (bitlen a - 1) \<le> a" and hi: "a < 2 ^ nat (bitlen a)" by simp_all
  have "(of_int (2 ^ nat (bitlen a - 1)) :: rat) \<le> of_int a"
    using lo by (simp only: of_int_le_iff)
  then show "(2::rat) powi (bitlen a - 1) \<le> of_int a"
    using b1 by (simp add: power_int_def)
  have "(of_int a :: rat) < of_int (2 ^ nat (bitlen a))"
    using hi by (simp only: of_int_less_iff)
  then show "of_int a < (2::rat) powi bitlen a"
    using b1 by (simp add: power_int_def)
qed

lemma binaryExponent_bounds:
  assumes "0 < x"
  shows "2 powi (binaryExponent x) \<le> x" and "x < 2 powi (binaryExponent x + 1)"
proof -
  obtain a b where q: "quotient_of x = (a, b)" by (cases "quotient_of x")
  have b: "0 < b" using q by (rule quotient_of_denom_pos)
  have x: "x = of_int a / of_int b" using q by (rule quotient_of_div)
  have a: "0 < a" using assms b unfolding x by (simp add: zero_less_divide_iff)
  define e where "e = bitlen a - bitlen b"
  have xb: "x * of_int b = of_int a" using b by (simp add: x)
  have bpos: "(0::rat) < of_int b" using b by simp
  have "of_int a < (2::rat) powi bitlen a" using a by (rule bitlen_pow2_bounds)
  also have "(2::rat) powi bitlen a = 2 powi (e + 1) * 2 powi (bitlen b - 1)"
    by (simp add: e_def flip: pow2_add)
  also have "\<dots> \<le> 2 powi (e + 1) * of_int b"
    using bitlen_pow2_bounds(1)[OF b] by (intro mult_left_mono) simp_all
  finally have "x * of_int b < 2 powi (e + 1) * of_int b" by (simp only: xb)
  then have hi: "x < 2 powi (e + 1)" using bpos by (simp only: mult_less_cancel_right_pos)
  have "2 powi (e - 1) * of_int b < (2::rat) powi (e - 1) * 2 powi bitlen b"
    using bitlen_pow2_bounds(2)[OF b] by (intro mult_strict_left_mono) simp_all
  also have "\<dots> = 2 powi (bitlen a - 1)"
    by (simp add: e_def flip: pow2_add)
  also have "\<dots> \<le> of_int a" using a by (rule bitlen_pow2_bounds)
  finally have "2 powi (e - 1) * of_int b < x * of_int b" by (simp only: xb)
  then have lo: "2 powi (e - 1) < x" using bpos by (simp only: mult_less_cancel_right_pos)
  have be: "binaryExponent x = (if 2 powi e \<le> x then e else e - 1)"
    by (simp add: binaryExponent_def q e_def Let_def)
  show "2 powi (binaryExponent x) \<le> x" using lo by (simp add: be)
  show "x < 2 powi (binaryExponent x + 1)" using hi by (auto simp: be not_le)
qed


lemma roundHalfEven_int: "roundHalfEven (of_int k) = k"
  by (simp add: roundHalfEven_def)

lemma roundHalfEven_ge: "of_int k \<le> y \<Longrightarrow> k \<le> roundHalfEven y"
proof -
  assume "of_int k \<le> y"
  then have "k \<le> \<lfloor>y\<rfloor>" by (simp add: le_floor_iff)
  then show ?thesis by (simp add: roundHalfEven_def Let_def)
qed

lemma roundHalfEven_le: "y \<le> of_int k \<Longrightarrow> roundHalfEven y \<le> k"
proof -
  assume le: "y \<le> of_int k"
  show ?thesis
  proof (cases "y = of_int k")
    case True
    then show ?thesis by (simp add: roundHalfEven_int)
  next
    case False
    then have "y < of_int k" using le by simp
    then have "\<lfloor>y\<rfloor> < k" by (simp add: floor_less_iff)
    then show ?thesis by (simp add: roundHalfEven_def Let_def)
  qed
qed

lemma roundHalfEven_mono:
  assumes "y \<le> z"
  shows "roundHalfEven y \<le> roundHalfEven z"
proof (cases "\<lfloor>y\<rfloor> = \<lfloor>z\<rfloor>")
  case True
  then show ?thesis using assms by (auto simp: roundHalfEven_def Let_def)
next
  case False
  moreover have "\<lfloor>y\<rfloor> \<le> \<lfloor>z\<rfloor>" using assms by (rule floor_mono)
  ultimately have "\<lfloor>y\<rfloor> + 1 \<le> \<lfloor>z\<rfloor>" by simp
  moreover have "roundHalfEven y \<le> \<lfloor>y\<rfloor> + 1" by (simp add: roundHalfEven_def Let_def)
  moreover have "\<lfloor>z\<rfloor> \<le> roundHalfEven z" by (simp add: roundHalfEven_def Let_def)
  ultimately show ?thesis by linarith
qed

text \<open>The shape of a rounded positive number: a significand of 53 bits.\<close>

lemma binary64_pos:
  assumes "0 < x"
  shows "binary64 x = of_int (roundHalfEven (x / 2 powi (binaryExponent x - 52))) * 2 powi (binaryExponent x - 52)"
  using assms by (simp add: binary64_def Let_def)

lemma significand_range:
  assumes "0 < x"
  shows "2 ^ 52 \<le> roundHalfEven (x / 2 powi (binaryExponent x - 52))"
    and "roundHalfEven (x / 2 powi (binaryExponent x - 52)) \<le> 2 ^ 53"
proof -
  define e where "e = binaryExponent x"
  define q where "q = (2::rat) powi (e - 52)"
  have qpos: "0 < q" by (simp add: q_def)
  have "(2::rat) powi e = 2 ^ 52 * q"
    unfolding q_def by (rule pow2_split52)
  then have lo: "2 ^ 52 * q \<le> x"
    using binaryExponent_bounds(1)[OF assms] by (simp add: e_def)
  have "(2::rat) powi (e + 1) = 2 ^ 53 * q"
    unfolding q_def by (rule pow2_split53)
  then have hi: "x \<le> 2 ^ 53 * q"
    using binaryExponent_bounds(2)[OF assms] by (simp add: e_def)
  have "(of_int (2 ^ 52) :: rat) \<le> x / q"
    using lo qpos by (simp add: le_divide_eq)
  then show "2 ^ 52 \<le> roundHalfEven (x / 2 powi (binaryExponent x - 52))"
    unfolding q_def e_def by (rule roundHalfEven_ge)
  have "x / q \<le> (of_int (2 ^ 53) :: rat)"
    using hi qpos by (simp add: divide_le_eq)
  then show "roundHalfEven (x / 2 powi (binaryExponent x - 52)) \<le> 2 ^ 53"
    unfolding q_def e_def by (rule roundHalfEven_le)
qed

lemma binary64_pos_bounds:
  assumes "0 < x"
  shows "2 powi (binaryExponent x) \<le> binary64 x" and "binary64 x \<le> 2 powi (binaryExponent x + 1)"
proof -
  define e where "e = binaryExponent x"
  define q where "q = (2::rat) powi (e - 52)"
  define n where "n = roundHalfEven (x / q)"
  have qpos: "0 < q" by (simp add: q_def)
  have b: "binary64 x = of_int n * q"
    using binary64_pos[OF assms] by (simp add: n_def q_def e_def)
  have n: "2 ^ 52 \<le> n" "n \<le> 2 ^ 53"
    using significand_range[OF assms] by (simp_all add: n_def q_def e_def)
  have "(of_int (2 ^ 52) :: rat) \<le> of_int n" using n(1) by (simp only: of_int_le_iff)
  then have "2 ^ 52 * q \<le> of_int n * q" using qpos by simp
  moreover have "(2::rat) powi e = 2 ^ 52 * q"
    unfolding q_def by (rule pow2_split52)
  ultimately show "2 powi (binaryExponent x) \<le> binary64 x"
    by (simp add: b e_def)
  have "(of_int n :: rat) \<le> of_int (2 ^ 53)" using n(2) by (simp only: of_int_le_iff)
  then have "of_int n * q \<le> 2 ^ 53 * q" using qpos by simp
  moreover have "(2::rat) powi (e + 1) = 2 ^ 53 * q"
    unfolding q_def by (rule pow2_split53)
  ultimately show "binary64 x \<le> 2 powi (binaryExponent x + 1)"
    by (simp add: b e_def)
qed

lemma binary64_pos_pos: "0 < x \<Longrightarrow> 0 < binary64 x"
  using binary64_pos_bounds(1)[of x] pow2_pos[of "binaryExponent x"] by linarith

lemma binary64_minus: "binary64 (- x) = - binary64 x"
  by (simp add: binary64_def Let_def)

lemma binary64_zero: "binary64 0 = 0"
  by (simp add: binary64_def)

lemma binary64_mono_pos:
  assumes "0 < x" and "x \<le> y"
  shows "binary64 x \<le> binary64 y"
proof -
  have y: "0 < y" using assms by simp
  have "(2::rat) powi (binaryExponent x) < 2 powi (binaryExponent y + 1)"
    using binaryExponent_bounds(1)[OF assms(1)] binaryExponent_bounds(2)[OF y] assms(2) by linarith
  then have "binaryExponent x < binaryExponent y + 1" by (rule pow2_less_D)
  then consider "binaryExponent x = binaryExponent y" | "binaryExponent x + 1 \<le> binaryExponent y"
    by linarith
  then show ?thesis
  proof cases
    case 1
    define q where "q = (2::rat) powi (binaryExponent y - 52)"
    have qpos: "0 < q" by (simp add: q_def)
    have "x / q \<le> y / q" using assms(2) qpos by (simp add: divide_right_mono)
    then have "roundHalfEven (x / q) \<le> roundHalfEven (y / q)" by (rule roundHalfEven_mono)
    then have "(of_int (roundHalfEven (x / q)) :: rat) \<le> of_int (roundHalfEven (y / q))"
      by (simp only: of_int_le_iff)
    then have "of_int (roundHalfEven (x / q)) * q \<le> of_int (roundHalfEven (y / q)) * q"
      using qpos by simp
    then show ?thesis
      unfolding binary64_pos[OF assms(1)] binary64_pos[OF y] 1 q_def .
  next
    case 2
    have "binary64 x \<le> 2 powi (binaryExponent x + 1)"
      using assms(1) by (rule binary64_pos_bounds)
    also have "\<dots> \<le> 2 powi (binaryExponent y)" using 2 by (rule pow2_mono)
    also have "\<dots> \<le> binary64 y" using y by (rule binary64_pos_bounds)
    finally show ?thesis .
  qed
qed

lemma binary64_mono:
  assumes "x \<le> y"
  shows "binary64 x \<le> binary64 y"
proof -
  consider "0 < x" | "x \<le> 0" "0 < y" | "x < 0" "y = 0" | "x = 0" "y = 0" | "x \<le> y" "y < 0"
    using assms by linarith
  then show ?thesis
  proof cases
    case 1
    then show ?thesis using assms by (rule binary64_mono_pos)
  next
    case 2
    have "binary64 x \<le> 0"
    proof (cases "x = 0")
      case True
      then show ?thesis by (simp add: binary64_zero)
    next
      case False
      then have "0 < - x" using 2(1) by simp
      then have "0 < binary64 (- x)" by (rule binary64_pos_pos)
      then show ?thesis by (simp add: binary64_minus)
    qed
    moreover have "0 < binary64 y" using 2(2) by (rule binary64_pos_pos)
    ultimately show ?thesis by linarith
  next
    case 3
    then have "0 < binary64 (- x)" by (intro binary64_pos_pos) simp
    then show ?thesis using 3(2) by (simp add: binary64_minus binary64_zero)
  next
    case 4
    then show ?thesis by simp
  next
    case 5
    then have "binary64 (- y) \<le> binary64 (- x)" by (intro binary64_mono_pos) simp_all
    then show ?thesis by (simp add: binary64_minus)
  qed
qed

lemma binary64_representable:
  assumes "0 < x" and "x = of_int n * 2 powi (binaryExponent x - 52)"
  shows "binary64 x = x"
proof -
  define q where "q = (2::rat) powi (binaryExponent x - 52)"
  have qpos: "0 < q" by (simp add: q_def)
  have xq: "x = of_int n * q" using assms(2) by (simp only: q_def)
  have "(of_int n * q) / q = (of_int n :: rat)" using qpos by simp
  then have "x / q = of_int n" by (simp only: xq[symmetric])
  then have "roundHalfEven (x / q) = n" by (simp only: roundHalfEven_int)
  then have "binary64 x = of_int n * q"
    using binary64_pos[OF assms(1)] by (simp only: q_def)
  then show ?thesis by (simp only: xq[symmetric])
qed



lemma binary64_int:
  assumes "0 \<le> k" and "k < 2 ^ 53"
  shows "binary64 (of_int k) = of_int k"
proof (cases "k = 0")
  case True
  then show ?thesis by (simp add: binary64_zero)
next
  case False
  define x where "x = (of_int k :: rat)"
  define e where "e = binaryExponent x"
  have xpos: "0 < x" using assms(1) False by (simp add: x_def)
  have "x < of_int (2 ^ 53)" unfolding x_def using assms(2) by (simp only: of_int_less_iff)
  then have "x < 2 powi 53" by simp
  then have "(2::rat) powi e < 2 powi 53"
    using binaryExponent_bounds(1)[OF xpos] by (simp add: e_def)
  then have e: "e < 53" by (rule pow2_less_D)
  define d where "d = nat (52 - e)"
  have "(2::rat) powi (e - 52) * 2 powi (int d) = 2 powi 0"
    unfolding pow2_add[symmetric] using e by (simp add: d_def)
  then have "(2::rat) powi (e - 52) * 2 ^ d = 1" by simp
  then have "x = of_int (k * 2 ^ d) * 2 powi (e - 52)"
    by (simp add: x_def mult.assoc mult.commute)
  then show ?thesis
    using binary64_representable[OF xpos, of "k * 2 ^ d"] by (simp add: e_def x_def)
qed

lemma binary64_nat: "k < 2 ^ 53 \<Longrightarrow> binary64 (of_nat k) = of_nat k"
  using binary64_int[of "int k"] by (simp add: of_nat_less_numeral_power_cancel_iff)

lemma binary64_nonneg: "0 \<le> x \<Longrightarrow> 0 \<le> binary64 x"
  using binary64_mono[of 0 x] by (simp add: binary64_zero)




subsection \<open>\<open>chunkText\<close>\<close>














lemma splitSpaces_unfold:
  "splitSpaces s =
     (case dropWhile (\<lambda>c. \<not> isSpace c) s of
        [] \<Rightarrow> [takeWhile (\<lambda>c. \<not> isSpace c) s]
      | c # r' \<Rightarrow> takeWhile (\<lambda>c. \<not> isSpace c) s # splitSpaces (dropWhile isSpace r'))"
  by (subst splitSpaces.simps) (simp only: Let_def)











lemma splitSpaces_Nil: "splitSpaces [] = [[]]"
  by (subst splitSpaces_unfold) simp


































text \<open>The loop only ever appends to the chunks it has.\<close>

lemma chunkLoop_prefix:
  "take (length chunks) (fst (chunkLoop opts clock t cur n chunks)) = chunks"
proof (induction opts clock t cur n chunks rule: chunkLoop.induct)
  case (1 opts clock t cur n chunks)
  show ?case
  proof (cases "cur < of_nat (length t)")
    case False
    then have "chunkLoop opts clock t cur n chunks = (chunks, cur)"
      by (subst chunkLoop.simps) simp
    then show ?thesis by simp
  next
    case True
    obtain chunk nxt where b: "chunkBody opts clock t cur n = (chunk, nxt)"
      by (cases "chunkBody opts clock t cur n")
    show ?thesis
    proof (cases "nxt \<ge> of_nat (length t) \<or> length (chunks @ [chunk]) > 100")
      case stop: True
      have "chunkLoop opts clock t cur n chunks = (chunks @ [chunk], nxt)"
        using True b stop by (subst chunkLoop.simps) simp
      then show ?thesis by simp
    next
      case go: False
      define r where "r = fst (chunkLoop opts clock t nxt (n + 1) (chunks @ [chunk]))"
      have eq: "chunkLoop opts clock t cur n chunks = chunkLoop opts clock t nxt (n + 1) (chunks @ [chunk])"
        using True b go by (subst chunkLoop.simps) simp
      have "take (length (chunks @ [chunk])) r = chunks @ [chunk]"
        unfolding r_def using "1.IH"[OF True refl b[symmetric] refl go] .
      then have "take (length chunks) (take (length (chunks @ [chunk])) r) = chunks"
        by simp
      then have "take (length chunks) r = chunks" by (simp add: min_def)
      then show ?thesis by (simp add: eq r_def)
    qed
  qed
qed

lemma chunkLoop_go:
  assumes "cur < of_nat (length t)" and "chunkBody opts clock t cur n = (chunk, nxt)"
      and "nxt < of_nat (length t)" and "length chunks < 100"
  shows "chunkLoop opts clock t cur n chunks = chunkLoop opts clock t nxt (n + 1) (chunks @ [chunk])"
  using assms by (subst chunkLoop.simps) simp

lemma chunkBody_parts:
  "snd (chunkBody opts clock t cur n) =
     binary64 (fst (cutChunk opts t cur)
               - min (overlapOf opts)
                     (binary64 (of_nat (length (snd (cutChunk opts t cur))) * binary64 (3 / 10))))"
  "startIndex (fst (chunkBody opts clock t cur n)) = cur"
  "endIndex (fst (chunkBody opts clock t cur n)) = fst (cutChunk opts t cur)"
  "content (fst (chunkBody opts clock t cur n)) = trim (snd (cutChunk opts t cur))"
  by (simp_all add: chunkBody_def Let_def split_def)

text \<open>
  A cursor that the loop body leaves where it is stays there: the loop goes on to the cap,
  and every further chunk is the one cut at that cursor.
\<close>

lemma chunkLoop_stuck:
  "cur < of_nat (length t) \<Longrightarrow> \<forall>m. snd (chunkBody opts clock t cur m) = cur \<Longrightarrow>
   length chunks \<le> 100 \<Longrightarrow>
   length (fst (chunkLoop opts clock t cur n chunks)) = 101
   \<and> (\<forall>c \<in> set (drop (length chunks) (fst (chunkLoop opts clock t cur n chunks))).
         (startIndex c, endIndex c, content c)
           = (cur, fst (cutChunk opts t cur), trim (snd (cutChunk opts t cur))))"
proof (induction opts clock t cur n chunks rule: chunkLoop.induct)
  case (1 opts clock t cur n chunks)
  obtain chunk nxt where b: "chunkBody opts clock t cur n = (chunk, nxt)"
    by (cases "chunkBody opts clock t cur n")
  have nxt: "nxt = cur" using "1.prems"(2) b by (metis snd_conv)
  have chunk: "(startIndex chunk, endIndex chunk, content chunk)
                 = (cur, fst (cutChunk opts t cur), trim (snd (cutChunk opts t cur)))"
    using chunkBody_parts(2-4)[of opts clock t cur n] b by simp
  show ?case
  proof (cases "length (chunks @ [chunk]) > 100")
    case True
    have "chunkLoop opts clock t cur n chunks = (chunks @ [chunk], nxt)"
      using "1.prems"(1) b True by (subst chunkLoop.simps) simp
    then show ?thesis using True "1.prems"(3) chunk by simp
  next
    case False
    then have go: "\<not> (nxt \<ge> of_nat (length t) \<or> length (chunks @ [chunk]) > 100)"
      using "1.prems"(1) nxt by simp
    define r where "r = fst (chunkLoop opts clock t nxt (n + 1) (chunks @ [chunk]))"
    have eq: "fst (chunkLoop opts clock t cur n chunks) = r"
      using "1.prems"(1) b go by (subst chunkLoop.simps) (simp add: r_def)
    have ih: "length r = 101
        \<and> (\<forall>c \<in> set (drop (length (chunks @ [chunk])) r).
              (startIndex c, endIndex c, content c)
                = (cur, fst (cutChunk opts t cur), trim (snd (cutChunk opts t cur))))"
      using "1.IH"[OF "1.prems"(1) refl b[symmetric] refl go] "1.prems" False
      by (simp add: r_def nxt)
    have "take (length (chunks @ [chunk])) r = chunks @ [chunk]"
      unfolding r_def by (rule chunkLoop_prefix)
    then have "r = (chunks @ [chunk]) @ drop (length (chunks @ [chunk])) r"
      by (metis append_take_drop_id)
    then have "drop (length chunks) r = chunk # drop (length (chunks @ [chunk])) r"
      by (metis append.assoc append_Cons append_Nil append_eq_conv_conj)
    then show ?thesis using ih chunk by (simp add: eq)
  qed
qed

text \<open>
  The cursor is stuck, short of the end of the text, when the word limit cuts a chunk
  down to nothing: with \<open>{maxWords: 1, overlap: 0}\<close> the text \<open>a b c\<close> gives the chunk \<open>a\<close>
  and then, from index 1, where the rest of the text starts with a space and so splits
  into a leading empty word, a hundred empty chunks; the text from index 1 on is in no
  chunk. The loop has no guard for a cursor that does not advance, other than the cap.
\<close>

lemma oneWord_cuts:
  "cutChunk oneWord ''a b c'' 0 = (1, ''a'')"
  "cutChunk oneWord ''a b c'' 1 = (1, [])"
  by code_simp+

lemma stuck_cursor_example:
  "normalize ''a b c'' = ''a b c''
   \<and> length (chunkText ''a b c'' oneWord (\<lambda>n. 0)) = 101
   \<and> (\<forall>c \<in> set (chunkText ''a b c'' oneWord (\<lambda>n. 0)). endIndex c = 1)
   \<and> (\<forall>c \<in> set (tl (chunkText ''a b c'' oneWord (\<lambda>n. 0))).
         (startIndex c, endIndex c, content c) = (1, 1, []))"
proof -
  have n: "normalize ''a b c'' = ''a b c''" by code_simp
  have w: "length (splitSpaces ''a b c'') = 3" by code_simp
  have ct: "chunkText ''a b c'' oneWord (\<lambda>n. 0) = fst (chunkLoop oneWord (\<lambda>n. 0) ''a b c'' 0 0 [])"
    by (simp add: chunkText_def n w Let_def oneWord_def maxWordsOf_def)
  note c0 = oneWord_cuts(1) and c1 = oneWord_cuts(2)
  have z: "min (overlapOf oneWord) (binary64 (of_nat k * binary64 (3 / 10))) = 0" for k
  proof -
    have "0 \<le> binary64 (of_nat k * binary64 (3 / 10))"
      by (intro binary64_nonneg mult_nonneg_nonneg) simp_all
    then show ?thesis by (simp add: oneWord_def overlapOf_def)
  qed
  have one: "binary64 1 = 1" using binary64_nat[of 1] by simp
  have s0: "snd (chunkBody oneWord (\<lambda>n. 0) ''a b c'' 0 m) = 1" for m
  proof -
    have "snd (chunkBody oneWord (\<lambda>n. 0) ''a b c'' 0 m)
            = binary64 (1 - min (overlapOf oneWord)
                                (binary64 (of_nat (length ''a'') * binary64 (3 / 10))))"
      by (simp only: chunkBody_parts c0 fst_conv snd_conv)
    then show ?thesis by (simp only: z) (simp add: one)
  qed
  have s1: "snd (chunkBody oneWord (\<lambda>n. 0) ''a b c'' 1 m) = 1" for m
  proof -
    have "snd (chunkBody oneWord (\<lambda>n. 0) ''a b c'' 1 m)
            = binary64 (1 - min (overlapOf oneWord)
                                (binary64 (of_nat (length ([] :: string)) * binary64 (3 / 10))))"
      by (simp only: chunkBody_parts c1 fst_conv snd_conv)
    then show ?thesis by (simp only: z) (simp add: one)
  qed
  obtain k0 where b0: "chunkBody oneWord (\<lambda>n. 0) ''a b c'' 0 0 = (k0, 1)"
    using s0[of 0] by (cases "chunkBody oneWord (\<lambda>n. 0) ''a b c'' 0 0") auto
  have k0: "endIndex k0 = 1"
    using chunkBody_parts(3)[of oneWord "\<lambda>n. 0" "''a b c''" 0 0] by (simp add: b0 c0)
  define r where "r = fst (chunkLoop oneWord (\<lambda>n. 0) ''a b c'' 1 (0 + 1) ([] @ [k0]))"
  have "chunkLoop oneWord (\<lambda>n. 0) ''a b c'' 0 0 []
          = chunkLoop oneWord (\<lambda>n. 0) ''a b c'' 1 (0 + 1) ([] @ [k0])"
    using b0 by (intro chunkLoop_go) simp_all
  then have cr: "chunkText ''a b c'' oneWord (\<lambda>n. 0) = r" by (simp add: ct r_def)
  have st: "length r = 101
      \<and> (\<forall>c \<in> set (drop (length ([] @ [k0])) r).
            (startIndex c, endIndex c, content c)
              = (1, fst (cutChunk oneWord ''a b c'' 1), trim (snd (cutChunk oneWord ''a b c'' 1))))"
    unfolding r_def using s1 by (intro chunkLoop_stuck) simp_all
  have "take (length ([] @ [k0])) r = [] @ [k0]"
    unfolding r_def by (rule chunkLoop_prefix)
  then have "r = k0 # drop 1 r" by (metis append_Cons append_Nil append_take_drop_id length_Cons list.size(3) One_nat_def)
  then have r: "r = k0 # tl r" by (simp add: drop_Suc)
  have rest: "\<forall>c \<in> set (tl r). (startIndex c, endIndex c, content c) = (1, 1, [])"
    using st by (simp add: c1 trim_def drop_Suc)
  have "\<forall>c \<in> set r. endIndex c = 1"
    using rest k0 by (subst r) auto
  then show ?thesis using n st rest by (simp add: cr)
qed






end
